theory Spec2Isabelle
  imports Main
begin

section \<open>Values of the JavaScript runtime that the code handles\<close>

text \<open>
  A thrown value is an \<open>Error\<close> object (identified by its message), or any other value
  (identified by what \<open>String(value)\<close> renders), or a value whose conversion to a string
  throws (\<open>Object.create(null)\<close>, an object whose \<open>toString\<close> throws); of such a value only
  \<open>value instanceof Error\<close> is kept. The conversion of such a value throws a \<open>TypeError\<close>.
  A promise is pending, fulfilled or rejected; its \<open>resolve\<close> and \<open>reject\<close> functions act
  only while it is pending.
\<close>

datatype thrown = Error string | NonError string | Opaque bool

text \<open>Whether \<open>String(value)\<close>, or a template literal holding the value, renders it.\<close>

fun printable :: "thrown \<Rightarrow> bool" where
  "printable (Error m) = True"
| "printable (NonError v) = True"
| "printable (Opaque b) = False"

datatype 'a promise = Pending | Fulfilled 'a | Rejected thrown

definition resolve :: "'a \<Rightarrow> 'a promise \<Rightarrow> 'a promise" where
  "resolve v p = (case p of Pending \<Rightarrow> Fulfilled v | _ \<Rightarrow> p)"

definition reject :: "thrown \<Rightarrow> 'a promise \<Rightarrow> 'a promise" where
  "reject e p = (case p of Pending \<Rightarrow> Rejected e | _ \<Rightarrow> p)"

section \<open>sleep\<close>

text \<open>
  What one call of \<open>sleep(ms, {signal})\<close> leaves behind: the promise it returned, the
  timer it armed (\<open>None\<close> when no timer is armed: never set, cleared, or already run)
  and whether its one-shot \<open>abort\<close> listener is still registered on the signal.
  The optional signal is given by its \<open>aborted\<close> flag at call time.
\<close>

record sleeper =
  result :: "unit promise"
  timeoutId :: "nat option"
  abortListener :: bool

definition sleep :: "nat \<Rightarrow> bool option \<Rightarrow> sleeper" where
  "sleep ms signal =
     (if signal = Some True
      then \<lparr>result = reject (Error ''Aborted'') Pending, timeoutId = None, abortListener = False\<rparr>
      else \<lparr>result = Pending, timeoutId = Some ms, abortListener = (signal \<noteq> None)\<rparr>)"

text \<open>The runtime runs the timer callback of an armed timer: \<open>resolve()\<close>.\<close>

definition timeout_fires :: "sleeper \<Rightarrow> sleeper" where
  "timeout_fires sl =
     (case timeoutId sl of
        None \<Rightarrow> sl
      | Some ms \<Rightarrow> sl\<lparr>result := resolve () (result sl), timeoutId := None\<rparr>)"

text \<open>
  The signal dispatches \<open>abort\<close>: a registered listener clears the timer and rejects;
  it was registered with \<open>once\<close>, so it is gone afterwards.
\<close>

definition abort_fires :: "sleeper \<Rightarrow> sleeper" where
  "abort_fires sl =
     (if abortListener sl
      then sl\<lparr>timeoutId := None,
              result := reject (Error ''Aborted'') (result sl),
              abortListener := False\<rparr>
      else sl)"

section \<open>Job ids\<close>

text \<open>
  \<open>addJob\<close> names a job \<open>`job-${++this.jobCounter}`\<close>: the text \<open>job-\<close> followed by
  the decimal digits of the counter.
\<close>

definition digit :: "nat \<Rightarrow> char" where
  "digit n = ''0123456789'' ! n"

fun decimal :: "nat \<Rightarrow> string" where
  "decimal n = (if n < 10 then [digit n] else decimal (n div 10) @ [digit (n mod 10)])"

declare decimal.simps [simp del]

definition jobName :: "nat \<Rightarrow> string" where
  "jobName n = ''job-'' @ decimal n"

section \<open>JobQueue: data\<close>

text \<open>
  A \<open>Job\<close> holds its id, its data and references to three objects made by \<open>addJob\<close>:
  the \<open>AbortController\<close>, the promise and the promise's \<open>resolve\<close>/\<open>reject\<close> pair.
  The objects live in a store and the job holds their address, \<open>handle\<close>; the queue and
  the suspended call that processes the job share the objects through it.
\<close>

record 'd job =
  jobId :: string
  jobData :: 'd
  handle :: nat

text \<open>\<open>JobQueueEventType\<close> and the payloads of \<open>JobQueueEventListenerArgMap\<close>.\<close>

datatype kind = jobStart | jobComplete | jobError | queueEmpty | error

datatype ('d, 'r) event =
    JobStart string 'd
  | JobComplete string 'd 'r
  | JobError string 'd thrown
  | QueueEmpty
  | ErrorEvent thrown

fun kind_of :: "('d, 'r) event \<Rightarrow> kind" where
  "kind_of (JobStart j d) = jobStart"
| "kind_of (JobComplete j d r) = jobComplete"
| "kind_of (JobError j d e) = jobError"
| "kind_of QueueEmpty = queueEmpty"
| "kind_of (ErrorEvent e) = error"

text \<open>
  What the queue does that an observer can see, in order: \<open>Emit ev\<close> marks a call of
  \<open>emitEvent\<close>, \<open>Call l ev\<close> the call of listener \<open>l\<close> with the payload, \<open>Invoke h\<close> the
  call of the processor for the job at \<open>h\<close>. Listeners are told apart by a number, as
  \<open>indexOf\<close> tells functions apart by identity.
\<close>

datatype ('d, 'r) entry = Emit "('d, 'r) event" | Call nat "('d, 'r) event" | Invoke nat

text \<open>
  \<open>processLoop\<close> is an async function: between two runs it is suspended at one of its
  \<open>await\<close>s. \<open>AwaitJobs hs\<close>: at \<open>await this.processAvailableJobs()\<close>, which itself waits
  at \<open>await Promise.all(processingPromises)\<close> for the calls launched for the jobs \<open>hs\<close>
  (none when it returned early). \<open>AwaitThrown\<close>: at the same \<open>await\<close>, of a promise
  that was rejected because \<open>processAvailableJobs\<close> threw. \<open>AwaitSleep\<close>: at
  \<open>await sleep(...)\<close>. \<open>Running\<close>: the loop is not suspended, its code is on the call
  stack. \<open>Returned\<close>: the loop has ended.
\<close>

datatype pc = AwaitJobs "nat list" | AwaitThrown thrown | AwaitSleep sleeper | Running | Returned

text \<open>
  \<open>emitEvent\<close> calls the listeners, which are functions of the caller: while one runs, the
  code of the queue that called \<open>emitEvent\<close> waits on the call stack, and the listener may
  call any public method of the queue before it returns or throws. A \<open>site\<close> is a place
  where the code calls \<open>emitEvent\<close>, with the local variables needed to go on from there:
  \<^item> \<open>AtStart job lid n hs\<close>: in the \<open>try\<close> block of the call that
    \<open>processAvailableJobs\<close> starts for \<open>job\<close>, at \<open>emitEvent("jobStart", ...)\<close>; the
    \<open>for\<close> loop was entered by loop \<open>lid\<close>, has \<open>n\<close> more iterations to go after this
    one, and \<open>processingPromises\<close> will hold the promises of the calls for \<open>hs\<close> once
    this one is pushed;
  \<^item> \<open>AtComplete job r\<close>: in the same \<open>try\<close> block, at \<open>emitEvent("jobComplete", ...)\<close>,
    the processor having returned \<open>r\<close>;
  \<^item> \<open>AtError job e c\<close>: in the \<open>catch\<close> block, at \<open>emitEvent("jobError", ...)\<close>, with the
    caught value \<open>e\<close>; \<open>c\<close> is the \<open>for\<close> loop to go back to (loop, iterations to go,
    promises) when the call has not reached its \<open>await\<close> yet;
  \<^item> \<open>AtEmpty lid\<close>: in \<open>processLoop\<close>, at \<open>emitEvent("queueEmpty", {})\<close>;
  \<^item> \<open>AtFatal lid\<close>: in the \<open>catch\<close> handler that \<open>startProcessing\<close> installs, at
    \<open>emitEvent("error", ...)\<close>.
  A frame of the call stack is the call of a listener: the event, the index the \<open>for..of\<close>
  loop of \<open>emitEvent\<close> has reached in the array of listeners, and the site that called
  \<open>emitEvent\<close>. The stack holds the calls of the queue's code that wait for a listener,
  the innermost first.
\<close>

type_synonym round = "nat \<times> nat \<times> nat list"

datatype ('d, 'r) site =
    AtStart "'d job" nat nat "nat list"
  | AtComplete "'d job" 'r
  | AtError "'d job" thrown "round option"
  | AtEmpty nat
  | AtFatal nat

datatype ('d, 'r) frame = Frame "('d, 'r) event" nat "('d, 'r) site"

text \<open>
  The fields of the class (\<open>isProcessingPaused\<close> is never read or written after its
  initialisation and is left out; \<open>jobProcessor\<close> belongs to the caller and is
  represented by the moments its promises settle, see \<open>Settle\<close> below), then the store of
  the objects made by \<open>addJob\<close>, the suspended coroutines, the call stack and the
  observations. \<open>processing\<close> holds the jobs whose processing call is suspended at
  \<open>await this.jobProcessor(...)\<close>, in launch order; \<open>failed\<close> the jobs whose processing
  call ended with an exception, so that its promise, an element of \<open>processingPromises\<close>,
  is rejected.
\<close>

record ('d, 'r) jobQueue =
  maxConcurrent :: int
  intervalMs :: nat
  queue :: "'d job list"
  running :: "string list"
  listeners :: "kind \<Rightarrow> nat list"
  jobCounter :: nat
  processingInterval :: "nat option"
  aborted :: "nat \<Rightarrow> bool"
  promises :: "nat \<Rightarrow> 'r promise"
  loops :: "pc list"
  processing :: "'d job list"
  failed :: "nat list"
  stack :: "('d, 'r) frame list"
  log :: "('d, 'r) entry list"

text \<open>\<open>Set.add\<close>, \<open>Set.delete\<close> and \<open>Set.size\<close> on an insertion-ordered list.\<close>

definition set_add :: "'a \<Rightarrow> 'a list \<Rightarrow> 'a list" where
  "set_add x xs = (if x \<in> set xs then xs else xs @ [x])"

definition set_delete :: "'a \<Rightarrow> 'a list \<Rightarrow> 'a list" where
  "set_delete x xs = removeAll x xs"

text \<open>\<open>Array.findIndex\<close>: the first index whose element satisfies \<open>P\<close>; \<open>None\<close> for -1.\<close>

fun findIndex :: "('a \<Rightarrow> bool) \<Rightarrow> 'a list \<Rightarrow> nat option" where
  "findIndex P [] = None"
| "findIndex P (x # xs) =
     (if P x then Some 0 else (case findIndex P xs of None \<Rightarrow> None | Some i \<Rightarrow> Some (Suc i)))"

text \<open>\<open>Array.splice(i, 1)\<close>.\<close>

definition splice1 :: "nat \<Rightarrow> 'a list \<Rightarrow> 'a list" where
  "splice1 i xs = take i xs @ drop (Suc i) xs"

section \<open>JobQueue: operations\<close>

text \<open>
  The \<open>for..of\<close> loop of \<open>emitEvent\<close>, about to look at index \<open>i\<close> of the array of
  listeners. The array is the one \<open>addEventListener\<close> pushes to and
  \<open>removeEventListener\<close> splices, so the loop sees every change made while it runs.
  With a listener at \<open>i\<close> the listener is called: the code stops there, with a new frame
  on the stack, and the result is \<open>False\<close>. Without one \<open>emitEvent\<close> returns: \<open>True\<close>.
\<close>

definition callListener ::
  "('d, 'r) site \<Rightarrow> ('d, 'r) event \<Rightarrow> nat \<Rightarrow> ('d, 'r) jobQueue \<Rightarrow> bool \<times> ('d, 'r) jobQueue" where
  "callListener site ev i s =
     (if i < length (listeners s (kind_of ev))
      then (False, s\<lparr>log := log s @ [Call (listeners s (kind_of ev) ! i) ev],
                     stack := Frame ev i site # stack s\<rparr>)
      else (True, s))"

definition emitEvent ::
  "('d, 'r) site \<Rightarrow> ('d, 'r) event \<Rightarrow> ('d, 'r) jobQueue \<Rightarrow> bool \<times> ('d, 'r) jobQueue" where
  "emitEvent site ev s = callListener site ev 0 (s\<lparr>log := log s @ [Emit ev]\<rparr>)"

definition addEventListener :: "kind \<Rightarrow> nat \<Rightarrow> ('d, 'r) jobQueue \<Rightarrow> ('d, 'r) jobQueue" where
  "addEventListener k l s = s\<lparr>listeners := (listeners s)(k := listeners s k @ [l])\<rparr>"

definition removeEventListener :: "kind \<Rightarrow> nat \<Rightarrow> ('d, 'r) jobQueue \<Rightarrow> ('d, 'r) jobQueue" where
  "removeEventListener k l s = s\<lparr>listeners := (listeners s)(k := remove1 l (listeners s k))\<rparr>"

text \<open>
  The call that \<open>processAvailableJobs\<close> starts for a job, after \<open>emitEvent("jobStart")\<close>
  has returned: the processor is called with the job's data and signal, and the call
  stays suspended until the processor's promise settles. The processor is an async
  function, as its type and every use of it say: a call returns a promise, and it does
  not call back into the queue before it returns.
\<close>

definition startJob :: "'d job \<Rightarrow> ('d, 'r) jobQueue \<Rightarrow> ('d, 'r) jobQueue" where
  "startJob job s = s\<lparr>log := log s @ [Invoke (handle job)], processing := processing s @ [job]\<rparr>"

text \<open>
  The \<open>for\<close> loop of \<open>processAvailableJobs\<close>, entered by loop \<open>lid\<close>, with \<open>n\<close> iterations
  to go and the promises of the calls for \<open>hs\<close> in \<open>processingPromises\<close>. An iteration
  takes the first job of the queue, adds its id to \<open>running\<close> and starts the call for it,
  which emits \<open>jobStart\<close> first. \<open>this.queue.shift()!\<close> on an empty queue is \<open>undefined\<close>
  and reading its \<open>id\<close> throws a \<open>TypeError\<close>: the promise of \<open>processAvailableJobs\<close> is
  rejected. After the last iteration \<open>processAvailableJobs\<close> is suspended at
  \<open>await Promise.all(processingPromises)\<close>, and \<open>processLoop\<close> at the \<open>await\<close> of its
  promise.
\<close>

fun launch :: "nat \<Rightarrow> nat \<Rightarrow> nat list \<Rightarrow> ('d, 'r) jobQueue \<Rightarrow> ('d, 'r) jobQueue" where
  "launch lid 0 hs s = s\<lparr>loops := (loops s)[lid := AwaitJobs hs]\<rparr>"
| "launch lid (Suc n) hs s =
     (case queue s of
        [] \<Rightarrow> s\<lparr>loops := (loops s)[lid := AwaitThrown (Error ''TypeError'')]\<rparr>
      | job # rest \<Rightarrow>
          (case emitEvent (AtStart job lid n (hs @ [handle job]))
                  (JobStart (jobId job) (jobData job))
                  (s\<lparr>queue := rest, running := set_add (jobId job) (running s)\<rparr>) of
             (True, s1) \<Rightarrow> launch lid n (hs @ [handle job]) (startJob job s1)
           | (False, s1) \<Rightarrow> s1))"

definition jobsToProcess :: "('d, 'r) jobQueue \<Rightarrow> int" where
  "jobsToProcess s = min (maxConcurrent s - int (length (running s))) (int (length (queue s)))"

text \<open>
  \<open>processAvailableJobs\<close>, called by loop \<open>lid\<close>, up to its
  \<open>await Promise.all(processingPromises)\<close> or to the first call of a listener.
\<close>

definition processAvailableJobs :: "nat \<Rightarrow> ('d, 'r) jobQueue \<Rightarrow> ('d, 'r) jobQueue" where
  "processAvailableJobs lid s =
     (if jobsToProcess s \<le> 0 then s\<lparr>loops := (loops s)[lid := AwaitJobs []]\<rparr>
      else launch lid (nat (jobsToProcess s)) [] s)"

text \<open>The head of the \<open>while\<close> loop of \<open>processLoop\<close>, run by loop \<open>lid\<close>.\<close>

definition iterate :: "nat \<Rightarrow> ('d, 'r) jobQueue \<Rightarrow> ('d, 'r) jobQueue" where
  "iterate lid s = processAvailableJobs lid (s\<lparr>loops := (loops s)[lid := Running]\<rparr>)"

definition startProcessing :: "('d, 'r) jobQueue \<Rightarrow> ('d, 'r) jobQueue" where
  "startProcessing s =
     (if processingInterval s \<noteq> None then s
      else iterate (length (loops s))
             (s\<lparr>processingInterval := Some 1, loops := loops s @ [Running]\<rparr>))"

text \<open>
  An exception in \<open>processLoop\<close>: its \<open>catch\<close> clears the flag and rethrows, which ends
  the loop, and the \<open>catch\<close> handler installed by \<open>startProcessing\<close> emits \<open>error\<close> and
  clears the flag again.
\<close>

definition fatal :: "nat \<Rightarrow> ('d, 'r) jobQueue \<Rightarrow> ('d, 'r) jobQueue" where
  "fatal lid s =
     (case emitEvent (AtFatal lid) (ErrorEvent (Error ''Fatal error in job queue processing''))
             (s\<lparr>processingInterval := None, loops := (loops s)[lid := Returned]\<rparr>) of
        (True, s1) \<Rightarrow> s1\<lparr>processingInterval := None\<rparr>
      | (False, s1) \<Rightarrow> s1)"

text \<open>
  \<open>processLoop\<close> from the return of \<open>await this.processAvailableJobs()\<close> to its next
  \<open>await\<close>: the check for an empty queue, \<open>queueEmpty\<close>, the second look at the queue
  (\<open>afterEmpty\<close>), and otherwise \<open>sleep(this.intervalMs)\<close> or \<open>sleep(0)\<close>, without a
  signal (\<open>goSleep\<close>).
\<close>

definition goSleep :: "nat \<Rightarrow> ('d, 'r) jobQueue \<Rightarrow> ('d, 'r) jobQueue" where
  "goSleep lid s =
     s\<lparr>loops := (loops s)
          [lid := AwaitSleep (sleep (if intervalMs s > 0 then intervalMs s else 0) None)]\<rparr>"

definition afterEmpty :: "nat \<Rightarrow> ('d, 'r) jobQueue \<Rightarrow> ('d, 'r) jobQueue" where
  "afterEmpty lid s =
     (if length (queue s) = 0
      then s\<lparr>processingInterval := None, loops := (loops s)[lid := Returned]\<rparr>
      else goSleep lid s)"

definition afterJobs :: "nat \<Rightarrow> ('d, 'r) jobQueue \<Rightarrow> ('d, 'r) jobQueue" where
  "afterJobs lid s =
     (if length (queue s) = 0 \<and> length (running s) = 0
      then (case emitEvent (AtEmpty lid) QueueEmpty s of
              (True, s1) \<Rightarrow> afterEmpty lid s1
            | (False, s1) \<Rightarrow> s1)
      else goSleep lid s)"

text \<open>The timer of the loop's \<open>sleep\<close> runs: the loop goes round, or fails if the sleep did.\<close>

definition afterSleep :: "nat \<Rightarrow> sleeper \<Rightarrow> ('d, 'r) jobQueue \<Rightarrow> ('d, 'r) jobQueue" where
  "afterSleep lid sl s =
     (case result (timeout_fires sl) of
        Fulfilled u \<Rightarrow> iterate lid s
      | Rejected e \<Rightarrow> fatal lid s
      | Pending \<Rightarrow> s)"

text \<open>How a call of the processor ends: its promise is fulfilled or rejected.\<close>

datatype 'r outcome = Returns 'r | Throws thrown

text \<open>
  \<open>error instanceof Error ? error : new Error(String(error))\<close>: the normalized error
  (\<open>Inr\<close>), or what the conversion to a string throws (\<open>Inl\<close>).
\<close>

fun normalize :: "thrown \<Rightarrow> thrown + thrown" where
  "normalize (Error m) = Inr (Error m)"
| "normalize (NonError v) = Inr (Error v)"
| "normalize (Opaque True) = Inr (Opaque True)"
| "normalize (Opaque False) = Inl (Error ''TypeError'')"

text \<open>
  The rest of the call started for a job. \<open>goOn\<close>: the call has ended or is suspended, and
  the \<open>for\<close> loop that started it, if it is still on the stack, goes on. \<open>finallyJob\<close>:
  the \<open>finally\<close> block. \<open>throwJob\<close>: an exception leaves the \<open>catch\<close> block, so that after
  \<open>finally\<close> the promise of the call is rejected. \<open>afterComplete\<close>: the \<open>try\<close> block after
  \<open>emitEvent("jobComplete")\<close>. \<open>afterError\<close>: the \<open>catch\<close> block after
  \<open>emitEvent("jobError")\<close>. \<open>failJob\<close>: the \<open>catch\<close> block from its start, with the value
  caught.
\<close>

definition goOn :: "round option \<Rightarrow> ('d, 'r) jobQueue \<Rightarrow> ('d, 'r) jobQueue" where
  "goOn c s = (case c of None \<Rightarrow> s | Some (lid, n, hs) \<Rightarrow> launch lid n hs s)"

definition finallyJob :: "'d job \<Rightarrow> ('d, 'r) jobQueue \<Rightarrow> ('d, 'r) jobQueue" where
  "finallyJob job s = s\<lparr>running := set_delete (jobId job) (running s)\<rparr>"

definition throwJob :: "'d job \<Rightarrow> round option \<Rightarrow> ('d, 'r) jobQueue \<Rightarrow> ('d, 'r) jobQueue" where
  "throwJob job c s = goOn c ((finallyJob job s)\<lparr>failed := failed s @ [handle job]\<rparr>)"

definition afterComplete :: "'d job \<Rightarrow> 'r \<Rightarrow> ('d, 'r) jobQueue \<Rightarrow> ('d, 'r) jobQueue" where
  "afterComplete job r s =
     finallyJob job
       (s\<lparr>promises := (promises s)(handle job := resolve r (promises s (handle job)))\<rparr>)"

definition afterError ::
  "'d job \<Rightarrow> thrown \<Rightarrow> round option \<Rightarrow> ('d, 'r) jobQueue \<Rightarrow> ('d, 'r) jobQueue" where
  "afterError job e c s =
     goOn c (finallyJob job
       (s\<lparr>promises := (promises s)(handle job := reject e (promises s (handle job)))\<rparr>))"

definition failJob ::
  "'d job \<Rightarrow> thrown \<Rightarrow> round option \<Rightarrow> ('d, 'r) jobQueue \<Rightarrow> ('d, 'r) jobQueue" where
  "failJob job e c s =
     (case normalize e of
        Inl x \<Rightarrow> throwJob job c s
      | Inr normalizedError \<Rightarrow>
          (case emitEvent (AtError job e c) (JobError (jobId job) (jobData job) normalizedError) s of
             (True, s1) \<Rightarrow> afterError job e c s1
           | (False, s1) \<Rightarrow> s1))"

text \<open>
  The call started for \<open>job\<close> goes on from \<open>await this.jobProcessor(...)\<close>, the processor's
  promise having settled: the \<open>try\<close> branch or the \<open>catch\<close> branch, then \<open>finally\<close>.
\<close>

definition finishJob :: "'d job \<Rightarrow> 'r outcome \<Rightarrow> ('d, 'r) jobQueue \<Rightarrow> ('d, 'r) jobQueue" where
  "finishJob job out s =
     (let s0 = s\<lparr>processing := remove1 job (processing s)\<rparr>
      in case out of
           Returns r \<Rightarrow>
             (case emitEvent (AtComplete job r) (JobComplete (jobId job) (jobData job) r) s0 of
                (True, s1) \<Rightarrow> afterComplete job r s1
              | (False, s1) \<Rightarrow> s1)
         | Throws e \<Rightarrow> failJob job e None s0)"

text \<open>
  \<open>emitEvent\<close> has returned (\<open>None\<close>) or thrown to the site that called it: the code
  goes on from there. An exception in the \<open>try\<close> block of the call for a job is caught by
  its \<open>catch\<close> block; one in \<open>processLoop\<close> is fatal; one in the handler of the fatal
  error leaves the handler.
\<close>

fun resumeSite ::
  "('d, 'r) site \<Rightarrow> thrown option \<Rightarrow> ('d, 'r) jobQueue \<Rightarrow> ('d, 'r) jobQueue" where
  "resumeSite (AtStart job lid n hs) None s = launch lid n hs (startJob job s)"
| "resumeSite (AtStart job lid n hs) (Some x) s = failJob job x (Some (lid, n, hs)) s"
| "resumeSite (AtComplete job r) None s = afterComplete job r s"
| "resumeSite (AtComplete job r) (Some x) s = failJob job x None s"
| "resumeSite (AtError job e c) None s = afterError job e c s"
| "resumeSite (AtError job e c) (Some x) s = throwJob job c s"
| "resumeSite (AtEmpty lid) None s = afterEmpty lid s"
| "resumeSite (AtEmpty lid) (Some x) s = fatal lid s"
| "resumeSite (AtFatal lid) None s = s\<lparr>processingInterval := None\<rparr>"
| "resumeSite (AtFatal lid) (Some x) s = s"

text \<open>
  The listener that is running ends: it returns (\<open>None\<close>) or throws. \<open>emitEvent\<close> catches
  what it throws and prints it with a template literal, which throws in turn when the
  value has no conversion to a string; otherwise the \<open>for..of\<close> loop goes to the next
  index.
\<close>

definition listenerEnds :: "thrown option \<Rightarrow> ('d, 'r) jobQueue \<Rightarrow> ('d, 'r) jobQueue" where
  "listenerEnds x s =
     (case stack s of
        [] \<Rightarrow> s
      | Frame ev i site # below \<Rightarrow>
          (if (case x of None \<Rightarrow> True | Some e \<Rightarrow> printable e)
           then (case callListener site ev (Suc i) (s\<lparr>stack := below\<rparr>) of
                   (True, s1) \<Rightarrow> resumeSite site None s1
                 | (False, s1) \<Rightarrow> s1)
           else resumeSite site (Some (Error ''TypeError'')) (s\<lparr>stack := below\<rparr>)))"

text \<open>
  \<open>addJob\<close>. The controller and the promise are new objects; their address is the new
  value of the counter. The result is the \<open>JobPromise\<close>, given by its \<open>_jobId\<close>.
\<close>

definition addJob :: "'d \<Rightarrow> ('d, 'r) jobQueue \<Rightarrow> string \<times> ('d, 'r) jobQueue" where
  "addJob d s =
     (let n = jobCounter s + 1;
          job = \<lparr>jobId = jobName n, jobData = d, handle = n\<rparr>;
          s1 = s\<lparr>jobCounter := n,
                 aborted := (aborted s)(n := False),
                 promises := (promises s)(n := Pending)\<rparr>;
          s2 = s1\<lparr>queue := queue s1 @ [job]\<rparr>
      in (jobId job, if processingInterval s2 = None then startProcessing s2 else s2))"

definition abortJob :: "string \<Rightarrow> ('d, 'r) jobQueue \<Rightarrow> bool \<times> ('d, 'r) jobQueue" where
  "abortJob j s =
     (case findIndex (\<lambda>job. jobId job = j) (queue s) of
        Some queueIndex \<Rightarrow>
          (let job = queue s ! queueIndex;
               s1 = s\<lparr>aborted := (aborted s)(handle job := True)\<rparr>;
               s2 = s1\<lparr>promises := (promises s1)
                        (handle job := reject (Error (''Job '' @ j @ '' aborted'')) (promises s1 (handle job)))\<rparr>
           in (True, s2\<lparr>queue := splice1 queueIndex (queue s2)\<rparr>))
      | None \<Rightarrow>
          (if j \<in> set (running s)
           then (case find (\<lambda>job. jobId job = j) (queue s) of
                   Some job \<Rightarrow> (True, s\<lparr>aborted := (aborted s)(handle job := True)\<rparr>)
                 | None \<Rightarrow> (False, s))
           else (False, s)))"

text \<open>\<open>JobPromise.abort\<close>: the callback bound at construction is \<open>abortJob\<close>.\<close>

definition JobPromise_abort :: "string \<Rightarrow> ('d, 'r) jobQueue \<Rightarrow> ('d, 'r) jobQueue" where
  "JobPromise_abort p s = snd (abortJob p s)"

text \<open>The body of the \<open>for\<close> loop of \<open>dispose\<close>.\<close>

definition disposeJob :: "'d job \<Rightarrow> ('d, 'r) jobQueue \<Rightarrow> ('d, 'r) jobQueue" where
  "disposeJob job s =
     s\<lparr>aborted := (aborted s)(handle job := True),
       promises := (promises s)
         (handle job := reject (Error ''JobQueue disposed'') (promises s (handle job)))\<rparr>"

definition dispose :: "('d, 'r) jobQueue \<Rightarrow> ('d, 'r) jobQueue" where
  "dispose s =
     (let s1 = s\<lparr>processingInterval := None\<rparr>;
          s2 = fold disposeJob (queue s1) s1
      in s2\<lparr>queue := []\<rparr>)"

text \<open>The constructor.\<close>

definition JobQueue :: "int \<Rightarrow> nat \<Rightarrow> ('d, 'r) jobQueue" where
  "JobQueue mc iv =
     startProcessing
       \<lparr>maxConcurrent = mc, intervalMs = iv, queue = [], running = [],
        listeners = (\<lambda>k. []), jobCounter = 0, processingInterval = None,
        aborted = (\<lambda>h. False), promises = (\<lambda>h. Pending),
        loops = [], processing = [], failed = [], stack = [], log = []\<rparr>"

section \<open>JobQueue: runs\<close>

text \<open>
  JavaScript runs one piece of code at a time. A run of the queue is a sequence of
  actions:
  \<^item> the calls of the public methods. With an empty call stack the caller is code that
    the runtime has started; otherwise it is the listener that is running;
  \<^item> \<open>Return\<close> and \<open>Raise e\<close>: the listener that is running returns, or throws \<open>e\<close>;
  \<^item> the continuations of the suspended coroutines, which the runtime starts only with an
    empty call stack, each only when the promise it waits for has settled.
    \<open>Resume lid\<close>: loop \<open>lid\<close> goes on after \<open>await this.processAvailableJobs()\<close>; the
    promise of \<open>Promise.all\<close> is rejected as soon as one of its promises is, and
    fulfilled when every call launched for the batch has ended. \<open>Wake lid\<close>: the timer
    of the \<open>sleep\<close> of loop \<open>lid\<close> runs. \<open>Settle h out\<close>: the promise the processor
    returned for the job at \<open>h\<close> settles.
  An action that is not possible in a state leaves it as it is.
\<close>

datatype ('d, 'r) action =
    AddJob 'd
  | AbortJob string
  | AddEventListener kind nat
  | RemoveEventListener kind nat
  | Dispose
  | Return
  | Raise thrown
  | Resume nat
  | Wake nat
  | Settle nat "'r outcome"

definition ended :: "('d, 'r) jobQueue \<Rightarrow> nat \<Rightarrow> bool" where
  "ended s h = (h \<notin> set (map handle (processing s)))"

definition resume :: "nat \<Rightarrow> ('d, 'r) jobQueue \<Rightarrow> ('d, 'r) jobQueue" where
  "resume lid s =
     (if lid < length (loops s)
      then (case loops s ! lid of
              AwaitJobs hs \<Rightarrow>
                if list_ex (\<lambda>h. h \<in> set (failed s)) hs then fatal lid s
                else if list_all (ended s) hs
                     then afterJobs lid (s\<lparr>loops := (loops s)[lid := Running]\<rparr>)
                     else s
            | AwaitThrown e \<Rightarrow> fatal lid s
            | AwaitSleep sl \<Rightarrow> s
            | Running \<Rightarrow> s
            | Returned \<Rightarrow> s)
      else s)"

definition wake :: "nat \<Rightarrow> ('d, 'r) jobQueue \<Rightarrow> ('d, 'r) jobQueue" where
  "wake lid s =
     (if lid < length (loops s)
      then (case loops s ! lid of
              AwaitSleep sl \<Rightarrow> afterSleep lid sl s
            | AwaitJobs hs \<Rightarrow> s
            | AwaitThrown e \<Rightarrow> s
            | Running \<Rightarrow> s
            | Returned \<Rightarrow> s)
      else s)"

definition settle :: "nat \<Rightarrow> 'r outcome \<Rightarrow> ('d, 'r) jobQueue \<Rightarrow> ('d, 'r) jobQueue" where
  "settle h out s =
     (case find (\<lambda>job. handle job = h) (processing s) of
        Some job \<Rightarrow> finishJob job out s
      | None \<Rightarrow> s)"

fun step :: "('d, 'r) action \<Rightarrow> ('d, 'r) jobQueue \<Rightarrow> ('d, 'r) jobQueue" where
  "step (AddJob d) s = snd (addJob d s)"
| "step (AbortJob j) s = snd (abortJob j s)"
| "step (AddEventListener k l) s = addEventListener k l s"
| "step (RemoveEventListener k l) s = removeEventListener k l s"
| "step Dispose s = dispose s"
| "step Return s = listenerEnds None s"
| "step (Raise e) s = listenerEnds (Some e) s"
| "step (Resume lid) s = (if stack s = [] then resume lid s else s)"
| "step (Wake lid) s = (if stack s = [] then wake lid s else s)"
| "step (Settle h out) s = (if stack s = [] then settle h out s else s)"

fun exec :: "('d, 'r) action list \<Rightarrow> ('d, 'r) jobQueue \<Rightarrow> ('d, 'r) jobQueue" where
  "exec [] s = s"
| "exec (a # as) s = exec as (step a s)"

text \<open>The events emitted, and the ids for which \<open>jobStart\<close> was emitted, in order.\<close>

fun emitted :: "('d, 'r) entry list \<Rightarrow> ('d, 'r) event list" where
  "emitted [] = []"
| "emitted (Emit ev # es) = ev # emitted es"
| "emitted (Call l ev # es) = emitted es"
| "emitted (Invoke h # es) = emitted es"

fun started :: "('d, 'r) event list \<Rightarrow> string list" where
  "started [] = []"
| "started (JobStart j d # evs) = j # started evs"
| "started (ev # evs) = started evs"

section \<open>The event loop with the processor of the concurrency test\<close>

text \<open>
  The test of the concurrency limit (\<open>src/test/jobqueue.test.ts\<close>) gives the queue the
  processor \<open>async (data, signal) => { await sleep(data * 10, { signal });
  executionOrder.push(data); return data; }\<close> and then only waits. What happens next
  is decided by the runtime: it runs the timer that is due first (among timers due at the
  same time, the one set first), and after each piece of code the continuations that
  have become ready, before the next timer. Time is counted in milliseconds.
\<close>

datatype wakeup = LoopTimer nat | JobTimer nat

record world =
  sched :: "(nat, nat) jobQueue"
  now :: nat
  timers :: "(nat \<times> wakeup) list"
  rejectedAtOnce :: "nat list"

definition processorSleep :: "(nat, nat) jobQueue \<Rightarrow> nat job \<Rightarrow> sleeper" where
  "processorSleep s job = sleep (jobData job * 10) (Some (aborted s (handle job)))"

text \<open>
  The timers set by the piece of code that just ran, in the order of the calls: by the
  processor for each job launched, by the loop that went to sleep. A \<open>sleep\<close> that was
  rejected at once sets no timer; its processor fails in the continuations that follow.
  What is already armed is left alone, so that \<open>arm\<close> can follow each piece of code:
  the code that a timer runs, and then the continuations that follow it.
\<close>

definition armJob :: "nat job \<Rightarrow> world \<Rightarrow> world" where
  "armJob job w =
     (if JobTimer (handle job) \<in> set (map snd (timers w)) \<or> handle job \<in> set (rejectedAtOnce w)
      then w
      else (case timeoutId (processorSleep (sched w) job) of
              Some ms \<Rightarrow> w\<lparr>timers := timers w @ [(now w + ms, JobTimer (handle job))]\<rparr>
            | None \<Rightarrow> w\<lparr>rejectedAtOnce := rejectedAtOnce w @ [handle job]\<rparr>))"

definition armLoop :: "nat \<Rightarrow> world \<Rightarrow> world" where
  "armLoop lid w =
     (case loops (sched w) ! lid of
        AwaitSleep sl \<Rightarrow>
          (if LoopTimer lid \<in> set (map snd (timers w)) then w
           else (case timeoutId sl of
                   Some ms \<Rightarrow> w\<lparr>timers := timers w @ [(now w + ms, LoopTimer lid)]\<rparr>
                 | None \<Rightarrow> w))
      | AwaitJobs hs \<Rightarrow> w
      | AwaitThrown e \<Rightarrow> w
      | Running \<Rightarrow> w
      | Returned \<Rightarrow> w)"

definition arm :: "world \<Rightarrow> world" where
  "arm w = fold armLoop [0 ..< length (loops (sched w))] (fold armJob (processing (sched w)) w)"

text \<open>
  The continuations that are ready: the processors whose \<open>sleep\<close> was rejected at once
  fail with its error, then every loop whose batch has ended goes on.
\<close>

definition continuations :: "world \<Rightarrow> world" where
  "continuations w =
     (let s1 = fold (\<lambda>h. settle h (Throws (Error ''Aborted''))) (rejectedAtOnce w) (sched w);
          s2 = fold resume [0 ..< length (loops s1)] s1
      in w\<lparr>sched := s2, rejectedAtOnce := []\<rparr>)"

fun earliest :: "(nat \<times> 'a) list \<Rightarrow> (nat \<times> 'a) option" where
  "earliest [] = None"
| "earliest (t # ts) =
     (case earliest ts of
        None \<Rightarrow> Some t
      | Some u \<Rightarrow> if fst u < fst t then Some u else Some t)"

text \<open>
  A timer runs: the loop's own, or that of a processor, which then records its data and
  returns it.
\<close>

definition fire :: "wakeup \<Rightarrow> (nat, nat) jobQueue \<Rightarrow> (nat, nat) jobQueue" where
  "fire wk s =
     (case wk of
        LoopTimer lid \<Rightarrow> wake lid s
      | JobTimer h \<Rightarrow>
          (case find (\<lambda>job. handle job = h) (processing s) of
             Some job \<Rightarrow> settle h (Returns (jobData job)) s
           | None \<Rightarrow> s))"

definition tick :: "world \<Rightarrow> world" where
  "tick w =
     (case earliest (timers w) of
        None \<Rightarrow> w
      | Some (due, wk) \<Rightarrow>
          arm (continuations
                 (arm (w\<lparr>now := max (now w) due,
                         timers := remove1 (due, wk) (timers w),
                         sched := fire wk (sched w)\<rparr>))))"

fun ticks :: "nat \<Rightarrow> world \<Rightarrow> world" where
  "ticks 0 w = w"
| "ticks (Suc n) w = ticks n (tick w)"

text \<open>The test's own code has run and waits: the runtime takes over.\<close>

definition handOver :: "(nat, nat) jobQueue \<Rightarrow> world" where
  "handOver s =
     arm (continuations (arm \<lparr>sched = s, now = 0, timers = [], rejectedAtOnce = []\<rparr>))"

fun completed :: "('d, 'r) event list \<Rightarrow> 'd list" where
  "completed [] = []"
| "completed (JobComplete j d r # evs) = d # completed evs"
| "completed (ev # evs) = completed evs"

section \<open>Notions used in the statements and proofs\<close>

text \<open>
  The jobs that one call of \<open>processAvailableJobs\<close> takes from the queue when nothing
  changes the queue while it runs, and those it leaves there.
\<close>

definition batch :: "('d, 'r) jobQueue \<Rightarrow> 'd job list" where
  "batch s = take (nat (jobsToProcess s)) (queue s)"

definition rest :: "('d, 'r) jobQueue \<Rightarrow> 'd job list" where
  "rest s = drop (nat (jobsToProcess s)) (queue s)"

text \<open>
  What launching one job adds to the observations when the listeners of \<open>jobStart\<close>
  are \<open>ls\<close> and each returns when called: \<open>jobStart\<close> is emitted and delivered, then the
  processor is called.
\<close>

definition startEntries :: "nat list \<Rightarrow> 'd job \<Rightarrow> ('d, 'r) entry list" where
  "startEntries ls job =
     Emit (JobStart (jobId job) (jobData job))
       # map (\<lambda>l. Call l (JobStart (jobId job) (jobData job))) ls
       @ [Invoke (handle job)]"

text \<open>The calls of a public method, among the actions.\<close>

fun apiCall :: "('d, 'r) action \<Rightarrow> bool" where
  "apiCall (AddJob d) = True"
| "apiCall (AbortJob j) = True"
| "apiCall (AddEventListener k l) = True"
| "apiCall (RemoveEventListener k l) = True"
| "apiCall Dispose = True"
| "apiCall a = False"


text \<open>
  In the run of \<open>acts\<close> from \<open>s\<close> every call of a public method is made with an empty call
  stack: no listener calls back into the queue.
\<close>

fun outside :: "('d, 'r) action list \<Rightarrow> ('d, 'r) jobQueue \<Rightarrow> bool" where
  "outside [] s = True"
| "outside (a # as) s = ((apiCall a \<longrightarrow> stack s = []) \<and> outside as (step a s))"

text \<open>
  An action that throws no value without a conversion to a string: neither a listener
  nor a processor does.
\<close>

fun plain :: "('d, 'r) action \<Rightarrow> bool" where
  "plain (Raise e) = printable e"
| "plain (Settle h (Throws e)) = printable e"
| "plain a = True"

text \<open>The job that a site works on, the loop whose code a site belongs to, and the
  \<open>for\<close> loop a site goes back to.\<close>

fun jobs_of :: "('d, 'r) site \<Rightarrow> 'd job list" where
  "jobs_of (AtStart job lid n hs) = [job]"
| "jobs_of (AtComplete job r) = [job]"
| "jobs_of (AtError job e c) = [job]"
| "jobs_of (AtEmpty lid) = []"
| "jobs_of (AtFatal lid) = []"

fun round_of :: "('d, 'r) site \<Rightarrow> round option" where
  "round_of (AtStart job lid n hs) = Some (lid, n, hs)"
| "round_of (AtError job e c) = c"
| "round_of (AtComplete job r) = None"
| "round_of (AtEmpty lid) = None"
| "round_of (AtFatal lid) = None"

fun round_loop :: "round option \<Rightarrow> nat list" where
  "round_loop None = []"
| "round_loop (Some (lid, n, hs)) = [lid]"

fun loops_of :: "('d, 'r) site \<Rightarrow> nat list" where
  "loops_of (AtStart job lid n hs) = [lid]"
| "loops_of (AtError job e c) = round_loop c"
| "loops_of (AtComplete job r) = []"
| "loops_of (AtEmpty lid) = [lid]"
| "loops_of (AtFatal lid) = []"

fun site_of :: "('d, 'r) frame \<Rightarrow> ('d, 'r) site" where
  "site_of (Frame ev i site) = site"

text \<open>The jobs that the calls on the stack work on, and the loops whose code is on the
  stack.\<close>

definition inflight :: "('d, 'r) jobQueue \<Rightarrow> 'd job list" where
  "inflight s = concat (map (\<lambda>f. jobs_of (site_of f)) (stack s))"

definition active :: "('d, 'r) jobQueue \<Rightarrow> nat list" where
  "active s = concat (map (\<lambda>f. loops_of (site_of f)) (stack s))"

text \<open>The handles of the batch that the innermost call on the stack is launching.\<close>

definition current :: "('d, 'r) jobQueue \<Rightarrow> nat list" where
  "current s =
     (case stack s of
        [] \<Rightarrow> []
      | f # below \<Rightarrow> (case round_of (site_of f) of None \<Rightarrow> [] | Some (lid, n, hs) \<Rightarrow> hs))"

text \<open>The size of the running set is within the limit.\<close>

definition bounded :: "('d, 'r) jobQueue \<Rightarrow> bool" where
  "bounded s = (int (length (running s)) \<le> maxConcurrent s)"

text \<open>
  A job carries the id made from its handle, the handle was given out by the counter, and
  its promise is pending.
\<close>

definition known :: "('d, 'r) jobQueue \<Rightarrow> 'd job \<Rightarrow> bool" where
  "known s job =
     (jobId job = jobName (handle job) \<and> handle job \<le> jobCounter s
      \<and> promises s (handle job) = Pending)"

text \<open>An id that was given out and is not the id of a job in the queue.\<close>

definition gone :: "('d, 'r) jobQueue \<Rightarrow> string \<Rightarrow> bool" where
  "gone s j = (j \<in> jobName ` {.. jobCounter s} \<and> j \<notin> jobId ` set (queue s))"

text \<open>
  What holds of the jobs in every state the queue reaches, with \<open>js\<close> the jobs held in
  local variables of the code that is running: these, the jobs that calls on the stack
  work on, those being processed and those in the queue are known and are different
  jobs; the ids in the running set and those for which \<open>jobStart\<close> was emitted are not in
  the queue.
\<close>

definition sound :: "'d job list \<Rightarrow> ('d, 'r) jobQueue \<Rightarrow> bool" where
  "sound js s =
     (list_all (known s) (js @ inflight s @ processing s @ queue s)
      \<and> distinct (map handle (js @ inflight s @ processing s @ queue s))
      \<and> list_all (gone s) (running s)
      \<and> list_all (gone s) (started (emitted (log s))))"

definition inv :: "('d, 'r) jobQueue \<Rightarrow> bool" where
  "inv s = sound [] s"

text \<open>The state in which \<open>addJob\<close> looks at \<open>processingInterval\<close>.\<close>

definition enqueued :: "'d \<Rightarrow> ('d, 'r) jobQueue \<Rightarrow> ('d, 'r) jobQueue" where
  "enqueued d s =
     s\<lparr>jobCounter := jobCounter s + 1,
       aborted := (aborted s)(jobCounter s + 1 := False),
       promises := (promises s)(jobCounter s + 1 := Pending),
       queue := queue s @ [\<lparr>jobId = jobName (jobCounter s + 1), jobData = d,
                            handle = jobCounter s + 1\<rparr>]\<rparr>"

text \<open>
  The id \<open>j\<close> was given out, is not in the queue and \<open>jobStart\<close> has not been emitted
  for it.
\<close>

definition never :: "string \<Rightarrow> ('d, 'r) jobQueue \<Rightarrow> bool" where
  "never j s = (gone s j \<and> j \<notin> set (started (emitted (log s))))"

text \<open>
  From \<open>s\<close> to \<open>s'\<close> no job has entered the queue, no id was given out, and \<open>jobStart\<close>
  was emitted only for jobs that were in the queue of \<open>s\<close>.
\<close>

definition takes :: "('d, 'r) jobQueue \<Rightarrow> ('d, 'r) jobQueue \<Rightarrow> bool" where
  "takes s s' =
     (set (queue s') \<subseteq> set (queue s) \<and> jobCounter s' = jobCounter s
      \<and> (\<exists>js. started (emitted (log s')) = started (emitted (log s)) @ js
               \<and> set js \<subseteq> jobId ` set (queue s)))"

text \<open>
  What \<open>emitEvent\<close> has done once every listener it called has returned, when no
  listener calls the queue: the event is delivered to the listeners in the order of
  registration. \<open>returns k\<close> is \<open>k\<close> times the return of the listener that is running.
\<close>

definition delivered :: "('d, 'r) event \<Rightarrow> ('d, 'r) jobQueue \<Rightarrow> ('d, 'r) jobQueue" where
  "delivered ev s = s\<lparr>log := log s @ Emit ev # map (\<lambda>l. Call l ev) (listeners s (kind_of ev))\<rparr>"

definition returns :: "nat \<Rightarrow> ('d, 'r) action list" where
  "returns k = replicate k Return"


text \<open>
  From \<open>s\<close> to \<open>s'\<close> loop \<open>lid\<close> was left alone: it is where it was, and its code has not
  come onto the stack.
\<close>

definition spares :: "nat \<Rightarrow> ('d, 'r) jobQueue \<Rightarrow> ('d, 'r) jobQueue \<Rightarrow> bool" where
  "spares lid s s' =
     (lid < length (loops s) \<longrightarrow>
        lid < length (loops s') \<and> loops s' ! lid = loops s ! lid
        \<and> (lid \<in> set (active s') \<longrightarrow> lid \<in> set (active s)))"

section \<open>Properties of sleep\<close>

text \<open>
  C3. A call with an already aborted signal is rejected at once with the error
  \<open>Aborted\<close> and arms no timer. A call whose signal aborts before the timer has run is
  rejected with \<open>Aborted\<close>, its timer is cleared, and nothing the runtime does later
  resolves it. A call whose timer runs first is fulfilled, with or without a signal, and
  a later abort does not change that.
\<close>

theorem sleep_cancellation:
  "result (sleep ms (Some True)) = Rejected (Error ''Aborted'')
   \<and> timeoutId (sleep ms (Some True)) = None
   \<and> abortListener (sleep ms (Some True)) = False
   \<and> timeoutId (sleep ms (Some False)) = Some ms
   \<and> result (abort_fires (sleep ms (Some False))) = Rejected (Error ''Aborted'')
   \<and> timeoutId (abort_fires (sleep ms (Some False))) = None
   \<and> timeout_fires (abort_fires (sleep ms (Some False))) = abort_fires (sleep ms (Some False))
   \<and> result (timeout_fires (sleep ms (Some False))) = Fulfilled ()
   \<and> result (abort_fires (timeout_fires (sleep ms (Some False)))) = Fulfilled ()
   \<and> result (timeout_fires (sleep ms None)) = Fulfilled ()"
  by (simp add: sleep_def abort_fires_def timeout_fires_def resolve_def reject_def)

theorem sleep_cancellation_witness:
  "result (abort_fires (sleep 500 (Some False))) = Rejected (Error ''Aborted'')
   \<and> timeoutId (abort_fires (sleep 500 (Some False))) = None
   \<and> result (timeout_fires (sleep 100 None)) = Fulfilled ()"
  using sleep_cancellation [of 500] sleep_cancellation [of 100] by simp

section \<open>Job ids are told apart\<close>

lemma decimal_nonempty: "decimal n \<noteq> []"
  by (subst decimal.simps) simp

lemma digit_inj: "a < 10 \<Longrightarrow> b < 10 \<Longrightarrow> digit a = digit b \<Longrightarrow> a = b"
proof -
  assume a: "a < 10" and b: "b < 10" and e: "digit a = digit b"
  have "a \<in> {0,1,2,3,4,5,6,7,8,9}" using a by auto
  moreover have "b \<in> {0,1,2,3,4,5,6,7,8,9}" using b by auto
  ultimately show ?thesis using e by (auto simp: digit_def)
qed

lemma decimal_inj: "decimal n = decimal m \<Longrightarrow> n = m"
proof (induction n arbitrary: m rule: decimal.induct)
  case (1 n)
  show ?case
  proof (cases "n < 10")
    case True
    then have n: "decimal n = [digit n]" by (subst decimal.simps) simp
    show ?thesis
    proof (cases "m < 10")
      case True
      then have "decimal m = [digit m]" by (subst decimal.simps) simp
      with n "1.prems" have "digit n = digit m" by simp
      with \<open>n < 10\<close> \<open>m < 10\<close> show ?thesis by (rule digit_inj)
    next
      case False
      then have "decimal m = decimal (m div 10) @ [digit (m mod 10)]"
        by (subst decimal.simps) simp
      with n "1.prems" have "[digit n] = decimal (m div 10) @ [digit (m mod 10)]" by simp
      then have "decimal (m div 10) = []" by (simp add: Cons_eq_append_conv)
      then show ?thesis using decimal_nonempty by blast
    qed
  next
    case False
    then have n: "decimal n = decimal (n div 10) @ [digit (n mod 10)]"
      by (subst decimal.simps) simp
    show ?thesis
    proof (cases "m < 10")
      case True
      then have "decimal m = [digit m]" by (subst decimal.simps) simp
      with n "1.prems" have "decimal (n div 10) @ [digit (n mod 10)] = [digit m]" by simp
      then have "decimal (n div 10) = []" by (simp add: append_eq_Cons_conv)
      then show ?thesis using decimal_nonempty by blast
    next
      case m: False
      then have "decimal m = decimal (m div 10) @ [digit (m mod 10)]"
        by (subst decimal.simps) simp
      with n "1.prems" have e: "decimal (n div 10) = decimal (m div 10)"
        and d: "digit (n mod 10) = digit (m mod 10)" by simp_all
      from "1.IH" [OF False e] have q: "n div 10 = m div 10" .
      have "n mod 10 = m mod 10" by (rule digit_inj [OF _ _ d]) simp_all
      with q show ?thesis by (metis div_mult_mod_eq)
    qed
  qed
qed

lemma jobName_inj [simp]: "jobName n = jobName m \<longleftrightarrow> n = m"
  by (auto simp: jobName_def dest: decimal_inj)



section \<open>Observations\<close>

lemma emitted_append [simp]: "emitted (xs @ ys) = emitted xs @ emitted ys"
  by (induction xs rule: emitted.induct) simp_all

lemma emitted_calls [simp]: "emitted (map (\<lambda>l. Call l ev) ls) = []"
  by (induction ls) simp_all

lemma started_append [simp]: "started (xs @ ys) = started xs @ started ys"
  by (induction xs rule: started.induct) simp_all

section \<open>Calling the listeners\<close>

lemma callListener_cases:
  obtains (returned) "\<not> i < length (listeners s (kind_of ev))" "callListener site ev i s = (True, s)"
  | (called) "i < length (listeners s (kind_of ev))"
      "callListener site ev i s =
         (False, s\<lparr>log := log s @ [Call (listeners s (kind_of ev) ! i) ev],
                   stack := Frame ev i site # stack s\<rparr>)"
  by (cases "i < length (listeners s (kind_of ev))") (simp_all add: callListener_def)

lemma emitEvent_cases:
  obtains (returned) "listeners s (kind_of ev) = []"
      "emitEvent site ev s = (True, s\<lparr>log := log s @ [Emit ev]\<rparr>)"
  | (called) "listeners s (kind_of ev) \<noteq> []"
      "emitEvent site ev s =
         (False, s\<lparr>log := log s @ [Emit ev, Call (listeners s (kind_of ev) ! 0) ev],
                   stack := Frame ev 0 site # stack s\<rparr>)"
  by (cases "listeners s (kind_of ev) = []") (simp_all add: emitEvent_def callListener_def)

lemma callListener_sel [simp]:
  "maxConcurrent (snd (callListener site ev i s)) = maxConcurrent s"
  "intervalMs (snd (callListener site ev i s)) = intervalMs s"
  "queue (snd (callListener site ev i s)) = queue s"
  "running (snd (callListener site ev i s)) = running s"
  "listeners (snd (callListener site ev i s)) = listeners s"
  "jobCounter (snd (callListener site ev i s)) = jobCounter s"
  "processingInterval (snd (callListener site ev i s)) = processingInterval s"
  "aborted (snd (callListener site ev i s)) = aborted s"
  "promises (snd (callListener site ev i s)) = promises s"
  "loops (snd (callListener site ev i s)) = loops s"
  "processing (snd (callListener site ev i s)) = processing s"
  "failed (snd (callListener site ev i s)) = failed s"
  by (simp_all add: callListener_def)

lemma emitEvent_sel [simp]:
  "maxConcurrent (snd (emitEvent site ev s)) = maxConcurrent s"
  "intervalMs (snd (emitEvent site ev s)) = intervalMs s"
  "queue (snd (emitEvent site ev s)) = queue s"
  "running (snd (emitEvent site ev s)) = running s"
  "listeners (snd (emitEvent site ev s)) = listeners s"
  "jobCounter (snd (emitEvent site ev s)) = jobCounter s"
  "processingInterval (snd (emitEvent site ev s)) = processingInterval s"
  "aborted (snd (emitEvent site ev s)) = aborted s"
  "promises (snd (emitEvent site ev s)) = promises s"
  "loops (snd (emitEvent site ev s)) = loops s"
  "processing (snd (emitEvent site ev s)) = processing s"
  "failed (snd (emitEvent site ev s)) = failed s"
  by (simp_all add: emitEvent_def callListener_def)

lemma callListener_emitted [simp]:
  "emitted (log (snd (callListener site ev i s))) = emitted (log s)"
  by (simp add: callListener_def)

lemma emitEvent_emitted [simp]:
  "emitted (log (snd (emitEvent site ev s))) = emitted (log s) @ [ev]"
  by (simp add: emitEvent_def callListener_def)

lemma callListener_stack:
  "fst (callListener site ev i s) \<Longrightarrow> snd (callListener site ev i s) = s"
  "\<not> fst (callListener site ev i s) \<Longrightarrow>
     stack (snd (callListener site ev i s)) = Frame ev i site # stack s"
  by (simp_all add: callListener_def split: if_splits)

lemma emitEvent_stack:
  "fst (emitEvent site ev s) \<Longrightarrow> stack (snd (emitEvent site ev s)) = stack s"
  "\<not> fst (emitEvent site ev s) \<Longrightarrow>
     stack (snd (emitEvent site ev s)) = Frame ev 0 site # stack s"
  by (simp_all add: emitEvent_def callListener_def split: if_splits)

lemma case_called:
  "(case p of (True, s1) \<Rightarrow> f s1 | (False, s1) \<Rightarrow> g s1) = (if fst p then f (snd p) else g (snd p))"
  by (cases p) (simp split: bool.splits)

section \<open>The jobs of every state the queue reaches\<close>

lemma known_upd [simp]:
  "known (s\<lparr>maxConcurrent := m\<rparr>) = known s"
  "known (s\<lparr>intervalMs := iv\<rparr>) = known s"
  "known (s\<lparr>queue := q\<rparr>) = known s"
  "known (s\<lparr>running := r\<rparr>) = known s"
  "known (s\<lparr>listeners := ls\<rparr>) = known s"
  "known (s\<lparr>processingInterval := pi\<rparr>) = known s"
  "known (s\<lparr>aborted := a\<rparr>) = known s"
  "known (s\<lparr>loops := lp\<rparr>) = known s"
  "known (s\<lparr>processing := p\<rparr>) = known s"
  "known (s\<lparr>failed := f\<rparr>) = known s"
  "known (s\<lparr>stack := st\<rparr>) = known s"
  "known (s\<lparr>log := l\<rparr>) = known s"
  by (simp_all add: fun_eq_iff known_def)

lemma gone_upd [simp]:
  "gone (s\<lparr>maxConcurrent := m\<rparr>) = gone s"
  "gone (s\<lparr>intervalMs := iv\<rparr>) = gone s"
  "gone (s\<lparr>running := r\<rparr>) = gone s"
  "gone (s\<lparr>listeners := ls\<rparr>) = gone s"
  "gone (s\<lparr>processingInterval := pi\<rparr>) = gone s"
  "gone (s\<lparr>aborted := a\<rparr>) = gone s"
  "gone (s\<lparr>promises := pr\<rparr>) = gone s"
  "gone (s\<lparr>loops := lp\<rparr>) = gone s"
  "gone (s\<lparr>processing := p\<rparr>) = gone s"
  "gone (s\<lparr>failed := f\<rparr>) = gone s"
  "gone (s\<lparr>stack := st\<rparr>) = gone s"
  "gone (s\<lparr>log := l\<rparr>) = gone s"
  by (simp_all add: fun_eq_iff gone_def)

lemma sound_same:
  assumes "sound js s"
    and "inflight s' = inflight s" "processing s' = processing s" "queue s' = queue s"
    and "jobCounter s' = jobCounter s" "promises s' = promises s" "running s' = running s"
    and "started (emitted (log s')) = started (emitted (log s))"
  shows "sound js s'"
proof -
  have k: "known s' = known s" by (simp add: fun_eq_iff known_def assms)
  have g: "gone s' = gone s" by (simp add: fun_eq_iff gone_def assms)
  from assms(1) show ?thesis unfolding sound_def k g assms(2-) .
qed

lemma inflight_simps [simp]:
  "inflight (s\<lparr>stack := Frame ev i site # st\<rparr>) = jobs_of site @ inflight (s\<lparr>stack := st\<rparr>)"
  "inflight (s\<lparr>stack := stack s\<rparr>) = inflight s"
  "inflight (s\<lparr>log := l\<rparr>) = inflight s"
  "inflight (s\<lparr>loops := lp\<rparr>) = inflight s"
  "inflight (s\<lparr>queue := q\<rparr>) = inflight s"
  "inflight (s\<lparr>running := r\<rparr>) = inflight s"
  "inflight (s\<lparr>processing := p\<rparr>) = inflight s"
  "inflight (s\<lparr>promises := pr\<rparr>) = inflight s"
  "inflight (s\<lparr>failed := f\<rparr>) = inflight s"
  "inflight (s\<lparr>processingInterval := pi\<rparr>) = inflight s"
  "inflight (s\<lparr>jobCounter := c\<rparr>) = inflight s"
  "inflight (s\<lparr>aborted := a\<rparr>) = inflight s"
  "inflight (s\<lparr>listeners := ls\<rparr>) = inflight s"
  by (simp_all add: inflight_def)

lemma sound_callListener:
  assumes "sound (jobs_of site) s"
  shows "case callListener site ev i s of
           (True, s1) \<Rightarrow> sound (jobs_of site) s1
         | (False, s1) \<Rightarrow> sound [] s1"
proof (rule callListener_cases [of i s ev site])
  assume "callListener site ev i s = (True, s)"
  with assms show ?thesis by simp
next
  assume c: "callListener site ev i s =
         (False, s\<lparr>log := log s @ [Call (listeners s (kind_of ev) ! i) ev],
                   stack := Frame ev i site # stack s\<rparr>)"
  from assms show ?thesis
    unfolding c by (simp add: sound_def) blast
qed

lemma sound_emit:
  assumes "sound js s" and "list_all (gone s) (started [ev])"
  shows "sound js (s\<lparr>log := log s @ [Emit ev]\<rparr>)"
  using assms by (simp add: sound_def known_def gone_def)

lemma sound_emitEvent:
  assumes "sound (jobs_of site) s" and "list_all (gone s) (started [ev])"
  shows "case emitEvent site ev s of
           (True, s1) \<Rightarrow> sound (jobs_of site) s1
         | (False, s1) \<Rightarrow> sound [] s1"
  unfolding emitEvent_def by (rule sound_callListener [OF sound_emit [OF assms]])

lemma sound_loops [simp]: "sound js (s\<lparr>loops := lp\<rparr>) = sound js s"
  by (simp add: sound_def known_def gone_def)

lemma sound_flag [simp]: "sound js (s\<lparr>processingInterval := pi\<rparr>) = sound js s"
  by (simp add: sound_def known_def gone_def)

lemma sound_listeners [simp]: "sound js (s\<lparr>listeners := ls\<rparr>) = sound js s"
  by (simp add: sound_def known_def gone_def)

lemma sound_failed [simp]: "sound js (s\<lparr>failed := f\<rparr>) = sound js s"
  by (simp add: sound_def known_def gone_def)

lemma sound_startJob: "sound [job] s \<Longrightarrow> sound [] (startJob job s)"
  by (auto simp: sound_def startJob_def known_def gone_def)

lemma sound_take:
  assumes "sound [] s" and q: "queue s = job # others"
  shows "sound [job] (s\<lparr>queue := others, running := set_add (jobId job) (running s)\<rparr>)"
    and "gone (s\<lparr>queue := others, running := set_add (jobId job) (running s)\<rparr>) (jobId job)"
proof -
  from assms have k: "known s job" by (simp add: sound_def)
  from assms have d: "handle job \<notin> handle ` set others" by (simp add: sound_def)
  from assms have r: "\<forall>x \<in> set others. jobId x = jobName (handle x)"
    by (simp add: sound_def known_def list_all_iff)
  have n: "jobId job \<notin> jobId ` set others"
  proof
    assume "jobId job \<in> jobId ` set others"
    then obtain x where x: "x \<in> set others" "jobId x = jobId job" by auto
    with r k have "handle x = handle job" by (simp add: known_def)
    with x(1) d show False by (metis image_eqI)
  qed
  from k n show g: "gone (s\<lparr>queue := others, running := set_add (jobId job) (running s)\<rparr>) (jobId job)"
    by (auto simp: gone_def known_def)
  from assms g show "sound [job] (s\<lparr>queue := others, running := set_add (jobId job) (running s)\<rparr>)"
    by (auto simp: sound_def known_def gone_def set_add_def list_all_iff)
qed

lemma sound_launch: "sound [] s \<Longrightarrow> sound [] (launch lid n hs s)"
proof (induction n arbitrary: hs s)
  case 0
  then show ?case by simp
next
  case (Suc n)
  show ?case
  proof (cases "queue s")
    case Nil
    with Suc.prems show ?thesis by simp
  next
    case (Cons job others)
    let ?s0 = "s\<lparr>queue := others, running := set_add (jobId job) (running s)\<rparr>"
    have a: "sound (jobs_of (AtStart job lid n (hs @ [handle job]))) ?s0"
      using sound_take(1) [OF Suc.prems Cons] by simp
    have g: "list_all (gone ?s0) (started [JobStart (jobId job) (jobData job)])"
      using sound_take(2) [OF Suc.prems Cons] by simp
    from sound_emitEvent [OF a g] show ?thesis
      by (auto simp: Cons split: prod.splits bool.splits intro!: Suc.IH sound_startJob)
  qed
qed

lemma sound_processAvailableJobs: "sound [] s \<Longrightarrow> sound [] (processAvailableJobs lid s)"
  by (simp add: processAvailableJobs_def sound_launch)

lemma sound_iterate: "sound [] s \<Longrightarrow> sound [] (iterate lid s)"
  by (simp add: iterate_def sound_processAvailableJobs)

lemma sound_startProcessing: "sound [] s \<Longrightarrow> sound [] (startProcessing s)"
  by (simp add: startProcessing_def sound_iterate)

lemma sound_fatal: "sound [] s \<Longrightarrow> sound [] (fatal lid s)"
proof -
  assume s: "sound [] s"
  let ?s0 = "s\<lparr>processingInterval := None, loops := (loops s)[lid := Returned]\<rparr>"
  have "sound (jobs_of (AtFatal lid)) ?s0" using s by simp
  from sound_emitEvent [OF this, of "ErrorEvent (Error ''Fatal error in job queue processing'')"]
  show ?thesis by (auto simp: fatal_def split: prod.splits bool.splits)
qed

lemma sound_goSleep: "sound [] s \<Longrightarrow> sound [] (goSleep lid s)"
  by (simp add: goSleep_def)

lemma sound_afterEmpty: "sound [] s \<Longrightarrow> sound [] (afterEmpty lid s)"
  by (simp add: afterEmpty_def sound_goSleep)

lemma sound_afterJobs: "sound [] s \<Longrightarrow> sound [] (afterJobs lid s)"
proof -
  assume s: "sound [] s"
  then have "sound (jobs_of (AtEmpty lid)) s" by simp
  from sound_emitEvent [OF this, of QueueEmpty] s show ?thesis
    by (auto simp: afterJobs_def sound_goSleep split: prod.splits bool.splits
        intro: sound_afterEmpty)
qed

lemma sound_afterSleep: "sound [] s \<Longrightarrow> sound [] (afterSleep lid sl s)"
  by (simp add: afterSleep_def sound_iterate sound_fatal split: promise.splits)

lemma sound_goOn: "sound [] s \<Longrightarrow> sound [] (goOn c s)"
  by (simp add: goOn_def sound_launch split: option.splits)

lemma sound_drop: "sound (job # js) s \<Longrightarrow> sound js s"
  by (simp add: sound_def)

lemma sound_finallyJob: "sound js s \<Longrightarrow> sound js (finallyJob job s)"
  by (auto simp: sound_def finallyJob_def set_delete_def known_def gone_def list_all_iff)

lemma sound_throwJob: "sound [job] s \<Longrightarrow> sound [] (throwJob job c s)"
  unfolding throwJob_def
  by (rule sound_goOn) (simp add: sound_finallyJob sound_drop)

lemma sound_settled:
  assumes "sound [job] s"
  shows "sound [] (s\<lparr>promises := (promises s)(handle job := p)\<rparr>)"
proof -
  from assms have d: "handle job \<notin> handle ` set (inflight s @ processing s @ queue s)"
    by (auto simp: sound_def)
  then have ne: "\<forall>x \<in> set (inflight s @ processing s @ queue s). handle x \<noteq> handle job"
    by (metis imageI)
  from assms have "sound [] s" by (rule sound_drop)
  with ne show ?thesis
    by (auto simp: sound_def known_def gone_def list_all_iff)
qed

lemma sound_afterComplete: "sound [job] s \<Longrightarrow> sound [] (afterComplete job r s)"
  unfolding afterComplete_def by (rule sound_finallyJob) (rule sound_settled)

lemma sound_afterError: "sound [job] s \<Longrightarrow> sound [] (afterError job e c s)"
  unfolding afterError_def
  by (rule sound_goOn) (rule sound_finallyJob, rule sound_settled)

lemma sound_failJob:
  assumes "sound [job] s"
  shows "sound [] (failJob job e c s)"
proof (cases "normalize e")
  case (Inl x)
  with assms show ?thesis by (simp add: failJob_def sound_throwJob)
next
  case (Inr ne)
  have "sound (jobs_of (AtError job e c)) s" using assms by simp
  from sound_emitEvent [OF this, of "JobError (jobId job) (jobData job) ne"]
  show ?thesis
    by (auto simp: failJob_def Inr split: prod.splits bool.splits intro: sound_afterError)
qed

lemma distinct_map_remove1: "distinct (map f xs) \<Longrightarrow> distinct (map f (remove1 x xs))"
  by (simp add: distinct_map inj_on_diff)

lemma notin_map_remove1:
  assumes "distinct (map f xs)" and "x \<in> set xs"
  shows "f x \<notin> f ` set (remove1 x xs)"
proof
  assume "f x \<in> f ` set (remove1 x xs)"
  then obtain y where y: "y \<in> set (remove1 x xs)" "f y = f x" by auto
  from assms(1) have d: "distinct xs" and i: "inj_on f (set xs)" by (simp_all add: distinct_map)
  from y(1) d have "y \<in> set xs" "y \<noteq> x" by simp_all
  with i y(2) assms(2) show False by (auto dest: inj_onD)
qed

lemma sound_untake:
  assumes "sound [] s" and "job \<in> set (processing s)"
  shows "sound [job] (s\<lparr>processing := remove1 job (processing s)\<rparr>)"
proof -
  from assms(1) have d: "distinct (map handle (processing s))"
    and di: "distinct (map handle (inflight s))" and dq: "distinct (map handle (queue s))"
    and x: "handle ` set (inflight s) \<inter> handle ` set (processing s) = {}"
      "handle ` set (inflight s) \<inter> handle ` set (queue s) = {}"
      "handle ` set (processing s) \<inter> handle ` set (queue s) = {}"
    by (auto simp: sound_def)
  have n: "handle job \<notin> handle ` set (remove1 job (processing s))"
    by (rule notin_map_remove1 [OF d assms(2)])
  have r: "distinct (map handle (remove1 job (processing s)))"
    by (rule distinct_map_remove1 [OF d])
  have sub: "set (remove1 job (processing s)) \<subseteq> set (processing s)"
    by (rule set_remove1_subset)
  have dd: "distinct (map handle ([job] @ inflight s @ remove1 job (processing s) @ queue s))"
    using n r di dq x sub assms(2) by (simp; blast)
  from assms(1) have k: "list_all (known s) ([job] @ inflight s @ remove1 job (processing s) @ queue s)"
    using sub assms(2) by (auto simp: sound_def list_all_iff)
  from assms(1) dd k show ?thesis
    by (simp add: sound_def known_def gone_def list_all_iff)
qed

lemma sound_finishJob:
  assumes "sound [] s" and "job \<in> set (processing s)"
  shows "sound [] (finishJob job out s)"
proof (cases out)
  case (Returns r)
  let ?s0 = "s\<lparr>processing := remove1 job (processing s)\<rparr>"
  have "sound (jobs_of (AtComplete job r)) ?s0" using sound_untake [OF assms] by simp
  from sound_emitEvent [OF this, of "JobComplete (jobId job) (jobData job) r"]
  show ?thesis
    by (auto simp: finishJob_def Returns split: prod.splits bool.splits
        intro: sound_afterComplete)
next
  case (Throws e)
  with sound_untake [OF assms] show ?thesis by (simp add: finishJob_def sound_failJob)
qed

lemma sound_resumeSite: "sound (jobs_of site) s \<Longrightarrow> sound [] (resumeSite site x s)"
proof (induction site x s rule: resumeSite.induct)
  case (1 job lid n hs s)
  then show ?case by (simp add: sound_launch sound_startJob)
next
  case (2 job lid n hs x s)
  then show ?case by (simp add: sound_failJob)
next
  case (3 job r s)
  then show ?case by (simp add: sound_afterComplete)
next
  case (4 job r x s)
  then show ?case by (simp add: sound_failJob)
next
  case (5 job e c s)
  then show ?case by (simp add: sound_afterError)
next
  case (6 job e c x s)
  then show ?case by (simp add: sound_throwJob)
next
  case (7 lid s)
  then show ?case by (simp add: sound_afterEmpty)
next
  case (8 lid x s)
  then show ?case by (simp add: sound_fatal)
next
  case (9 lid s)
  then show ?case by simp
next
  case (10 lid x s)
  then show ?case by simp
qed

lemma sound_pop:
  assumes "sound [] s" and "stack s = Frame ev i site # below"
  shows "sound (jobs_of site) (s\<lparr>stack := below\<rparr>)"
  using assms by (simp add: sound_def known_def gone_def inflight_def)

lemma sound_listenerEnds: "sound [] s \<Longrightarrow> sound [] (listenerEnds x s)"
proof (cases "stack s")
  case Nil
  assume "sound [] s"
  with Nil show ?thesis by (simp add: listenerEnds_def)
next
  case (Cons f below)
  assume s: "sound [] s"
  obtain ev i site where f: "f = Frame ev i site" by (cases f)
  have p: "sound (jobs_of site) (s\<lparr>stack := below\<rparr>)"
    by (rule sound_pop [OF s]) (simp add: Cons f)
  from sound_callListener [OF p, of ev "Suc i"] p show ?thesis
    by (auto simp: listenerEnds_def Cons f split: prod.splits bool.splits
        intro: sound_resumeSite)
qed

lemma enqueued_sel [simp]:
  "inflight (enqueued d s) = inflight s"
  "processing (enqueued d s) = processing s"
  "running (enqueued d s) = running s"
  "log (enqueued d s) = log s"
  "stack (enqueued d s) = stack s"
  "loops (enqueued d s) = loops s"
  "listeners (enqueued d s) = listeners s"
  "failed (enqueued d s) = failed s"
  "maxConcurrent (enqueued d s) = maxConcurrent s"
  "intervalMs (enqueued d s) = intervalMs s"
  "processingInterval (enqueued d s) = processingInterval s"
  "jobCounter (enqueued d s) = Suc (jobCounter s)"
  "queue (enqueued d s)
     = queue s @ [\<lparr>jobId = jobName (Suc (jobCounter s)), jobData = d, handle = Suc (jobCounter s)\<rparr>]"
  by (simp_all add: enqueued_def inflight_def)

lemma sound_enqueued:
  assumes "sound [] s"
  shows "sound [] (enqueued d s)"
proof -
  let ?new = "\<lparr>jobId = jobName (Suc (jobCounter s)), jobData = d, handle = Suc (jobCounter s)\<rparr>"
  have k: "\<And>x. known s x \<Longrightarrow> known (enqueued d s) x"
    by (auto simp: known_def enqueued_def)
  have g: "\<And>j. gone s j \<Longrightarrow> gone (enqueued d s) j"
    by (auto simp: gone_def)
  have n: "known (enqueued d s) ?new" by (simp add: known_def enqueued_def)
  from assms have h: "\<forall>x \<in> set (inflight s @ processing s @ queue s). handle x \<le> jobCounter s"
    by (simp add: sound_def known_def list_all_iff)
  have f: "Suc (jobCounter s) \<notin> handle ` set (inflight s @ processing s @ queue s)"
  proof
    assume "Suc (jobCounter s) \<in> handle ` set (inflight s @ processing s @ queue s)"
    then obtain x where "Suc (jobCounter s) = handle x"
      "x \<in> set (inflight s @ processing s @ queue s)" by (rule imageE)
    with h show False by (metis Suc_n_not_le_n)
  qed
  from assms have d: "distinct (map handle (inflight s @ processing s @ queue s))"
    by (simp add: sound_def)
  have d': "distinct (map handle (inflight s @ processing s @ queue s @ [?new]))"
    using d f by (simp; blast)
  from assms have "list_all (known (enqueued d s)) (inflight s @ processing s @ queue s)"
    unfolding sound_def list_all_iff by (auto intro: k)
  with n have k': "list_all (known (enqueued d s)) (inflight s @ processing s @ queue s @ [?new])"
    by simp
  from assms have g': "list_all (gone (enqueued d s)) (running s)"
    "list_all (gone (enqueued d s)) (started (emitted (log s)))"
    unfolding sound_def list_all_iff by (auto intro: g)
  from d' k' g' show ?thesis by (simp add: sound_def)
qed

lemma addJob_eq:
  "addJob d s =
     (jobName (jobCounter s + 1),
      if processingInterval s = None then startProcessing (enqueued d s) else enqueued d s)"
  by (simp add: addJob_def enqueued_def Let_def)

lemma sound_addJob: "sound [] s \<Longrightarrow> sound [] (snd (addJob d s))"
  by (simp add: addJob_eq sound_startProcessing sound_enqueued)

section \<open>Lists\<close>

lemma set_splice1: "set (splice1 i xs) \<subseteq> set xs"
  by (auto simp: splice1_def dest: in_set_takeD in_set_dropD)

lemma splice1_simps [simp]:
  "splice1 i [] = []"
  "splice1 0 (x # xs) = xs"
  "splice1 (Suc k) (x # xs) = x # splice1 k xs"
  by (simp_all add: splice1_def)

lemma sorted_wrt_splice1: "sorted_wrt P xs \<Longrightarrow> sorted_wrt P (splice1 i xs)"
proof (induction xs arbitrary: i)
  case Nil
  then show ?case by simp
next
  case (Cons x xs)
  show ?case
  proof (cases i)
    case 0
    with Cons.prems show ?thesis by simp
  next
    case (Suc k)
    with Cons show ?thesis using set_splice1 [of k xs] by auto
  qed
qed

lemma distinct_map_splice1: "distinct (map f xs) \<Longrightarrow> distinct (map f (splice1 i xs))"
proof (induction xs arbitrary: i)
  case Nil
  then show ?case by simp
next
  case (Cons x xs)
  show ?case
  proof (cases i)
    case 0
    with Cons.prems show ?thesis by simp
  next
    case (Suc k)
    with Cons show ?thesis using set_splice1 [of k xs] by auto
  qed
qed

lemma findIndex_None: "findIndex P xs = None \<longleftrightarrow> (\<forall>x \<in> set xs. \<not> P x)"
  by (induction xs) (auto split: option.splits)

lemma findIndex_Some: "findIndex P xs = Some i \<Longrightarrow> i < length xs \<and> P (xs ! i)"
  by (induction xs arbitrary: i) (auto split: option.splits if_splits)

lemma find_None: "find P xs = None \<longleftrightarrow> (\<forall>x \<in> set xs. \<not> P x)"
  by (induction xs) auto

lemma find_Some_set: "find P xs = Some x \<Longrightarrow> x \<in> set xs \<and> P x"
  by (induction xs) (auto split: if_splits)

lemma splice1_nth_notin:
  "distinct (map f (xs @ ys)) \<Longrightarrow> i < length ys \<Longrightarrow> x \<in> set (xs @ splice1 i ys)
   \<Longrightarrow> f x \<noteq> f (ys ! i)"
proof -
  assume d: "distinct (map f (xs @ ys))" and i: "i < length ys"
    and x: "x \<in> set (xs @ splice1 i ys)"
  from i have "ys = take i ys @ ys ! i # drop (Suc i) ys" by (rule id_take_nth_drop)
  then have "distinct (map f (xs @ take i ys @ ys ! i # drop (Suc i) ys))"
    using d by simp
  then have "f (ys ! i) \<notin> f ` set (xs @ take i ys @ drop (Suc i) ys)"
    by auto
  moreover from x have "f x \<in> f ` set (xs @ take i ys @ drop (Suc i) ys)"
    by (intro imageI) (simp add: splice1_def)
  ultimately show ?thesis by metis
qed

section \<open>Cancelling and disposing keep the jobs sound\<close>

text \<open>Dropping jobs from the queue, and settling the promises of the jobs dropped.\<close>

lemma sound_shrink:
  assumes "sound [] s"
    and same: "inflight s' = inflight s" "processing s' = processing s"
      "running s' = running s" "jobCounter s' = jobCounter s"
      "started (emitted (log s')) = started (emitted (log s))"
    and q: "set (queue s') \<subseteq> set (queue s)" "distinct (map handle (queue s'))"
    and p: "\<And>x. x \<in> set (inflight s @ processing s @ queue s')
              \<Longrightarrow> promises s' (handle x) = promises s (handle x)"
  shows "sound [] s'"
proof -
  have sub: "set (inflight s @ processing s @ queue s') \<subseteq> set (inflight s @ processing s @ queue s)"
    using q(1) by auto
  have k: "list_all (known s') (inflight s @ processing s @ queue s')"
  proof -
    have "known s' x" if "x \<in> set (inflight s @ processing s @ queue s')" for x
    proof -
      from that sub have "x \<in> set (inflight s @ processing s @ queue s)" by blast
      with assms(1) have "known s x" by (simp add: sound_def list_all_iff)
      with p [OF that] show ?thesis by (simp add: known_def same)
    qed
    then show ?thesis by (simp only: list_all_iff) blast
  qed
  from assms(1) have d0: "distinct (map handle (inflight s @ processing s))"
    and x0: "handle ` set (inflight s @ processing s) \<inter> handle ` set (queue s) = {}"
    by (auto simp: sound_def)
  have d: "distinct (map handle (inflight s @ processing s @ queue s'))"
    using d0 x0 q by (simp; blast)
  have g: "gone s' j" if "gone s j" for j
    using that q(1) by (auto simp: gone_def same)
  from assms(1) have g': "list_all (gone s') (running s)"
    "list_all (gone s') (started (emitted (log s)))"
    unfolding sound_def list_all_iff by (auto intro: g)
  from k d g' show ?thesis by (simp add: sound_def same)
qed

lemma abortJob_queued_eq:
  "findIndex (\<lambda>job. jobId job = j) (queue s) = Some i \<Longrightarrow>
   abortJob j s =
     (True,
      s\<lparr>aborted := (aborted s)(handle (queue s ! i) := True),
        promises := (promises s)
          (handle (queue s ! i) :=
             reject (Error (''Job '' @ j @ '' aborted'')) (promises s (handle (queue s ! i)))),
        queue := splice1 i (queue s)\<rparr>)"
  by (simp add: abortJob_def Let_def)

lemma sound_aborted [simp]: "sound js (s\<lparr>aborted := a\<rparr>) = sound js s"
  by (simp add: sound_def)

lemma sound_abortJob:
  assumes "sound [] s" shows "sound [] (snd (abortJob j s))"
proof (cases "findIndex (\<lambda>job. jobId job = j) (queue s)")
  case None
  with assms show ?thesis
    by (simp add: abortJob_def split: option.splits)
next
  case (Some i)
  from Some have i: "i < length (queue s)" by (simp add: findIndex_Some)
  from assms have d: "distinct (map handle ((inflight s @ processing s) @ queue s))"
    by (simp add: sound_def)
  show ?thesis
    unfolding abortJob_queued_eq [OF Some] snd_conv
  proof (rule sound_shrink [OF assms])
    fix x
    assume "x \<in> set (inflight s @ processing s @
      queue (s\<lparr>aborted := (aborted s)(handle (queue s ! i) := True),
        promises := (promises s)
          (handle (queue s ! i) :=
             reject (Error (''Job '' @ j @ '' aborted'')) (promises s (handle (queue s ! i)))),
        queue := splice1 i (queue s)\<rparr>))"
    then have "x \<in> set ((inflight s @ processing s) @ splice1 i (queue s))" by simp
    from splice1_nth_notin [OF d i this]
    show "promises (s\<lparr>aborted := (aborted s)(handle (queue s ! i) := True),
        promises := (promises s)
          (handle (queue s ! i) :=
             reject (Error (''Job '' @ j @ '' aborted'')) (promises s (handle (queue s ! i)))),
        queue := splice1 i (queue s)\<rparr>) (handle x) = promises s (handle x)"
      by simp
  next
    from assms have "distinct (map handle (queue s))" by (simp add: sound_def)
    then show "distinct (map handle (queue (s\<lparr>aborted := (aborted s)(handle (queue s ! i) := True),
        promises := (promises s)
          (handle (queue s ! i) :=
             reject (Error (''Job '' @ j @ '' aborted'')) (promises s (handle (queue s ! i)))),
        queue := splice1 i (queue s)\<rparr>)))"
      by (simp add: distinct_map_splice1)
  qed (simp_all add: set_splice1)
qed

lemma fold_disposeJob_eq:
  "fold disposeJob js s =
     s\<lparr>aborted := (\<lambda>h. if h \<in> handle ` set js then True else aborted s h),
       promises := (\<lambda>h. if h \<in> handle ` set js
                         then reject (Error ''JobQueue disposed'') (promises s h)
                         else promises s h)\<rparr>"
proof (induction js arbitrary: s)
  case Nil
  then show ?case by simp
next
  case (Cons j js)
  show ?case
    by (simp add: Cons.IH) (auto simp: disposeJob_def fun_eq_iff reject_def split: promise.splits)
qed

lemma dispose_eq:
  "dispose s =
     s\<lparr>processingInterval := None,
       aborted := (\<lambda>h. if h \<in> handle ` set (queue s) then True else aborted s h),
       promises := (\<lambda>h. if h \<in> handle ` set (queue s)
                         then reject (Error ''JobQueue disposed'') (promises s h)
                         else promises s h),
       queue := []\<rparr>"
  by (simp add: dispose_def Let_def fold_disposeJob_eq cong: if_cong)

lemma sound_dispose:
  assumes "sound [] s" shows "sound [] (dispose s)"
proof (rule sound_shrink [OF assms])
  fix x
  assume "x \<in> set (inflight s @ processing s @ queue (dispose s))"
  then have x: "x \<in> set (inflight s @ processing s)" by (simp add: dispose_eq)
  from assms have "handle ` set (inflight s @ processing s) \<inter> handle ` set (queue s) = {}"
    by (auto simp: sound_def)
  with x have "handle x \<notin> handle ` set (queue s)" by blast
  then show "promises (dispose s) (handle x) = promises s (handle x)"
    by (simp add: dispose_eq)
qed (simp_all add: dispose_eq)

section \<open>Every action keeps the jobs sound\<close>

lemma sound_resume: "sound [] s \<Longrightarrow> sound [] (resume lid s)"
  by (simp add: resume_def sound_fatal sound_afterJobs split: pc.splits)

lemma sound_wake: "sound [] s \<Longrightarrow> sound [] (wake lid s)"
  by (simp add: wake_def sound_afterSleep split: pc.splits)

lemma sound_settle: "sound [] s \<Longrightarrow> sound [] (settle h out s)"
  by (auto simp: settle_def sound_finishJob split: option.splits dest: find_Some_set)

lemma sound_step: "sound [] s \<Longrightarrow> sound [] (step a s)"
  by (cases a)
    (simp_all add: sound_addJob sound_abortJob sound_dispose sound_listenerEnds sound_resume
      sound_wake sound_settle addEventListener_def removeEventListener_def)

lemma sound_exec: "sound [] s \<Longrightarrow> sound [] (exec acts s)"
  by (induction acts arbitrary: s) (simp_all add: sound_step)

lemma JobQueue_eq:
  "JobQueue mc iv =
     \<lparr>maxConcurrent = mc, intervalMs = iv, queue = [], running = [],
      listeners = (\<lambda>k. []), jobCounter = 0, processingInterval = Some 1,
      aborted = (\<lambda>h. False), promises = (\<lambda>h. Pending),
      loops = [AwaitJobs []], processing = [], failed = [], stack = [], log = []\<rparr>"
  by (simp add: JobQueue_def startProcessing_def iterate_def processAvailableJobs_def
      jobsToProcess_def)

lemma inv_run: "inv (exec acts (JobQueue mc iv))"
  unfolding inv_def by (rule sound_exec) (simp add: JobQueue_eq sound_def inflight_def)

section \<open>Jobs are started from the queue only\<close>

lemma takes_refl [simp]: "takes s s"
  by (simp add: takes_def)

lemma takes_trans: "takes s s' \<Longrightarrow> takes s' s'' \<Longrightarrow> takes s s''"
proof -
  assume a: "takes s s'" and b: "takes s' s''"
  from a obtain js where js: "started (emitted (log s')) = started (emitted (log s)) @ js"
    "set js \<subseteq> jobId ` set (queue s)" by (auto simp: takes_def)
  from b obtain ks where ks: "started (emitted (log s'')) = started (emitted (log s')) @ ks"
    "set ks \<subseteq> jobId ` set (queue s')" by (auto simp: takes_def)
  from a have q: "set (queue s') \<subseteq> set (queue s)" by (simp add: takes_def)
  have "started (emitted (log s'')) = started (emitted (log s)) @ (js @ ks)"
    using js ks by simp
  moreover have "jobId ` set (queue s') \<subseteq> jobId ` set (queue s)" by (rule image_mono [OF q])
  then have "set (js @ ks) \<subseteq> jobId ` set (queue s)" using js(2) ks(2) by simp
  ultimately have "\<exists>ls. started (emitted (log s'')) = started (emitted (log s)) @ ls
      \<and> set ls \<subseteq> jobId ` set (queue s)" by blast
  with a b show ?thesis by (auto simp: takes_def)
qed

lemma takes_same:
  "set (queue s') \<subseteq> set (queue s) \<Longrightarrow> jobCounter s' = jobCounter s
   \<Longrightarrow> started (emitted (log s')) = started (emitted (log s)) \<Longrightarrow> takes s s'"
  by (simp add: takes_def)

lemma takes_callListener: "takes s (snd (callListener site ev i s))"
  by (rule takes_same) simp_all

lemma takes_emitEvent: "started [ev] = [] \<Longrightarrow> takes s (snd (emitEvent site ev s))"
  by (rule takes_same) simp_all

lemma takes_launch: "takes s (launch lid n hs s)"
proof (induction n arbitrary: hs s)
  case 0
  show ?case by (rule takes_same) simp_all
next
  case (Suc n)
  show ?case
  proof (cases "queue s")
    case Nil
    show ?thesis by (rule takes_same) (simp_all add: Nil)
  next
    case (Cons job others)
    let ?s0 = "s\<lparr>queue := others, running := set_add (jobId job) (running s)\<rparr>"
    let ?e = "emitEvent (AtStart job lid n (hs @ [handle job]))
                (JobStart (jobId job) (jobData job)) ?s0"
    have a: "takes s (snd ?e)" by (auto simp: takes_def Cons)
    have b: "takes (snd ?e) (startJob job (snd ?e))"
      by (rule takes_same) (simp_all add: startJob_def)
    show ?thesis
    proof (cases "fst ?e")
      case True
      then have "launch lid (Suc n) hs s = launch lid n (hs @ [handle job]) (startJob job (snd ?e))"
        by (simp add: Cons case_called)
      with takes_trans [OF takes_trans [OF a b] Suc.IH] show ?thesis by simp
    next
      case False
      then have "launch lid (Suc n) hs s = snd ?e"
        by (simp add: Cons case_called)
      with a show ?thesis by simp
    qed
  qed
qed

lemma takes_loops: "takes s s' \<Longrightarrow> takes (s\<lparr>loops := lp\<rparr>) s'"
  by (simp add: takes_def)

lemma takes_processAvailableJobs: "takes s (processAvailableJobs lid s)"
  by (simp add: processAvailableJobs_def takes_launch takes_same)

lemma takes_iterate: "takes s (iterate lid s)"
  unfolding iterate_def
  using takes_processAvailableJobs [of "s\<lparr>loops := (loops s)[lid := Running]\<rparr>" lid]
  by (simp add: takes_def)

lemma takes_startProcessing: "takes s (startProcessing s)"
  unfolding startProcessing_def
  using takes_iterate [of "s\<lparr>processingInterval := Some 1, loops := loops s @ [Running]\<rparr>"]
  by (simp add: takes_def)

lemma takes_fatal: "takes s (fatal lid s)"
proof -
  let ?e = "emitEvent (AtFatal lid) (ErrorEvent (Error ''Fatal error in job queue processing''))
              (s\<lparr>processingInterval := None, loops := (loops s)[lid := Returned]\<rparr>)"
  have "takes s (snd ?e)" by (rule takes_same) simp_all
  moreover have "takes s ((snd ?e)\<lparr>processingInterval := None\<rparr>)"
    by (rule takes_same) simp_all
  ultimately show ?thesis by (simp add: fatal_def case_called)
qed

lemma takes_goSleep: "takes s (goSleep lid s)"
  by (rule takes_same) (simp_all add: goSleep_def)

lemma takes_afterEmpty: "takes s (afterEmpty lid s)"
  by (rule takes_same) (simp_all add: afterEmpty_def goSleep_def)

lemma takes_afterJobs: "takes s (afterJobs lid s)"
proof -
  let ?e = "emitEvent (AtEmpty lid) QueueEmpty s"
  have a: "takes s (snd ?e)" by (rule takes_same) simp_all
  have "takes s (afterEmpty lid (snd ?e))" by (rule takes_trans [OF a takes_afterEmpty])
  with a show ?thesis
    by (simp add: afterJobs_def takes_goSleep case_called)
qed

lemma takes_afterSleep: "takes s (afterSleep lid sl s)"
  by (simp add: afterSleep_def takes_iterate takes_fatal split: promise.splits)

lemma takes_goOn: "takes s (goOn c s)"
  by (simp add: goOn_def takes_launch split: option.splits)

lemma takes_throwJob: "takes s (throwJob job c s)"
proof -
  have "takes s ((finallyJob job s)\<lparr>failed := failed s @ [handle job]\<rparr>)"
    by (rule takes_same) (simp_all add: finallyJob_def)
  from takes_trans [OF this takes_goOn] show ?thesis by (simp add: throwJob_def)
qed

lemma takes_afterComplete: "takes s (afterComplete job r s)"
  by (rule takes_same) (simp_all add: afterComplete_def finallyJob_def)

lemma takes_afterError: "takes s (afterError job e c s)"
proof -
  have "takes s (finallyJob job
       (s\<lparr>promises := (promises s)(handle job := reject e (promises s (handle job)))\<rparr>))"
    by (rule takes_same) (simp_all add: finallyJob_def)
  from takes_trans [OF this takes_goOn] show ?thesis by (simp add: afterError_def)
qed

lemma takes_failJob: "takes s (failJob job e c s)"
proof (cases "normalize e")
  case (Inl x)
  then show ?thesis by (simp add: failJob_def takes_throwJob)
next
  case (Inr ne)
  let ?e = "emitEvent (AtError job e c) (JobError (jobId job) (jobData job) ne) s"
  have a: "takes s (snd ?e)" by (rule takes_same) simp_all
  have "takes s (afterError job e c (snd ?e))" by (rule takes_trans [OF a takes_afterError])
  with a show ?thesis by (simp add: failJob_def Inr case_called)
qed

lemma takes_finishJob: "takes s (finishJob job out s)"
proof -
  let ?s0 = "s\<lparr>processing := remove1 job (processing s)\<rparr>"
  have z: "takes s ?s0" by (rule takes_same) simp_all
  show ?thesis
  proof (cases out)
    case (Returns r)
    let ?e = "emitEvent (AtComplete job r) (JobComplete (jobId job) (jobData job) r) ?s0"
    have a: "takes s (snd ?e)" by (rule takes_same) simp_all
    have "takes s (afterComplete job r (snd ?e))"
      by (rule takes_trans [OF a takes_afterComplete])
    with a show ?thesis by (simp add: finishJob_def Returns case_called Let_def)
  next
    case (Throws e)
    from takes_trans [OF z takes_failJob] show ?thesis by (simp add: finishJob_def Throws Let_def)
  qed
qed

lemma takes_resumeSite: "takes s (resumeSite site x s)"
proof (induction site x s rule: resumeSite.induct)
  case (1 job lid n hs s)
  have "takes s (startJob job s)" by (rule takes_same) (simp_all add: startJob_def)
  from takes_trans [OF this takes_launch] show ?case by simp
next
  case (9 lid s)
  show ?case by (rule takes_same) simp_all
qed (simp_all add: takes_failJob takes_afterComplete takes_afterError takes_throwJob
       takes_afterEmpty takes_fatal)

lemma takes_listenerEnds: "takes s (listenerEnds x s)"
proof (cases "stack s")
  case Nil
  then show ?thesis by (simp add: listenerEnds_def)
next
  case (Cons f below)
  obtain ev i site where f: "f = Frame ev i site" by (cases f)
  let ?s0 = "s\<lparr>stack := below\<rparr>"
  let ?c = "callListener site ev (Suc i) ?s0"
  have z: "takes s ?s0" by (rule takes_same) simp_all
  have a: "takes s (snd ?c)" by (rule takes_same) simp_all
  have b: "takes s (resumeSite site None (snd ?c))" by (rule takes_trans [OF a takes_resumeSite])
  have c: "takes s (resumeSite site (Some (Error ''TypeError'')) ?s0)"
    by (rule takes_trans [OF z takes_resumeSite])
  from a b c show ?thesis
    by (simp add: listenerEnds_def Cons f case_called)
qed

lemma takes_abortJob: "takes s (snd (abortJob j s))"
proof (cases "findIndex (\<lambda>job. jobId job = j) (queue s)")
  case None
  then show ?thesis
    by (auto simp: abortJob_def intro!: takes_same split: option.splits)
next
  case (Some k)
  show ?thesis
    by (rule takes_same) (use set_splice1 [of k "queue s"] in \<open>simp_all add: abortJob_queued_eq [OF Some]\<close>)
qed

lemma takes_dispose: "takes s (dispose s)"
  by (rule takes_same) (simp_all add: dispose_eq)

lemma takes_resume: "takes s (resume lid s)"
proof -
  have "takes s (afterJobs lid (s\<lparr>loops := (loops s)[lid := Running]\<rparr>))"
    using takes_afterJobs [of "s\<lparr>loops := (loops s)[lid := Running]\<rparr>" lid]
    by (simp add: takes_def)
  then show ?thesis by (simp add: resume_def takes_fatal split: pc.splits)
qed

lemma takes_wake: "takes s (wake lid s)"
  by (simp add: wake_def takes_afterSleep split: pc.splits)

lemma takes_settle: "takes s (settle h out s)"
  by (simp add: settle_def takes_finishJob split: option.splits)

lemma takes_step:
  assumes "\<And>d. a \<noteq> AddJob d"
  shows "takes s (step a s)"
proof (cases a)
  case (AddJob d)
  with assms show ?thesis by blast
next
  case (AddEventListener k l)
  show ?thesis unfolding AddEventListener
    by (rule takes_same) (simp_all add: addEventListener_def)
next
  case (RemoveEventListener k l)
  show ?thesis unfolding RemoveEventListener
    by (rule takes_same) (simp_all add: removeEventListener_def)
qed (simp_all add: takes_abortJob takes_dispose takes_listenerEnds takes_resume takes_wake
       takes_settle)

lemma takes_addJob: "takes (enqueued d s) (snd (addJob d s))"
  by (simp add: addJob_eq takes_startProcessing)

section \<open>abortJob\<close>

lemma abortJob_unknown:
  "j \<notin> jobId ` set (queue s) \<Longrightarrow> abortJob j s = (False, s)"
proof -
  assume "j \<notin> jobId ` set (queue s)"
  then have n: "\<forall>x \<in> set (queue s). jobId x \<noteq> j" by auto
  then have "findIndex (\<lambda>job. jobId job = j) (queue s) = None"
    by (simp add: findIndex_None)
  moreover from n have "find (\<lambda>job. jobId job = j) (queue s) = None"
    by (simp add: find_None)
  ultimately show ?thesis by (simp add: abortJob_def)
qed

lemma running_not_queued:
  assumes "inv s" and "j \<in> set (running s)" shows "j \<notin> jobId ` set (queue s)"
  using assms by (simp add: inv_def sound_def list_all_iff gone_def)

lemma settled_not_queued:
  assumes "inv s" and "promises s h \<noteq> Pending" shows "jobName h \<notin> jobId ` set (queue s)"
proof
  assume "jobName h \<in> jobId ` set (queue s)"
  then obtain x where x: "x \<in> set (queue s)" "jobId x = jobName h" by auto
  with assms(1) have "known s x" by (simp add: inv_def sound_def list_all_iff)
  with x assms(2) show False by (simp add: known_def)
qed

lemma inv_distinct_ids: "inv s \<Longrightarrow> distinct (map jobId (queue s))"
proof -
  assume i: "inv s"
  then have e: "map jobId (queue s) = map jobName (map handle (queue s))"
    by (simp add: inv_def sound_def known_def list_all_iff)
  have "inj_on jobName A" for A by (rule inj_onI) simp
  moreover from i have "distinct (map handle (queue s))" by (simp add: inv_def sound_def)
  ultimately have "distinct (map jobName (map handle (queue s)))"
    by (simp only: distinct_map [of jobName] simp_thms)
  then show ?thesis unfolding e .
qed

lemma findIndex_distinct:
  "distinct (map f xs) \<Longrightarrow> x \<in> set xs \<Longrightarrow>
   \<exists>i. findIndex (\<lambda>y. f y = f x) xs = Some i \<and> xs ! i = x \<and> splice1 i xs = remove1 x xs"
proof (induction xs)
  case Nil
  then show ?case by simp
next
  case (Cons a xs)
  show ?case
  proof (cases "a = x")
    case True
    then show ?thesis by simp
  next
    case False
    with Cons.prems have x: "x \<in> set xs" and d: "distinct (map f xs)" by auto
    from Cons.prems x have "f a \<noteq> f x" by (auto simp: image_iff)
    with Cons.IH [OF d x] False show ?thesis by auto
  qed
qed

text \<open>
  C1. For every job in the running set of a state the queue reaches, \<open>abortJob\<close> returns
  \<open>false\<close> and changes nothing: the job's controller is not aborted.
\<close>

theorem abortJob_running:
  "j \<in> set (running (exec acts (JobQueue mc iv))) \<Longrightarrow>
   abortJob j (exec acts (JobQueue mc iv)) = (False, exec acts (JobQueue mc iv))"
  by (rule abortJob_unknown [OF running_not_queued [OF inv_run]])

theorem abortJob_running_witness:
  "''job-1'' \<in> set (running (exec [AddJob (7::nat), Resume 0, Wake 0] (JobQueue 1 0 :: (nat, nat) jobQueue)))
   \<and> fst (abortJob ''job-1'' (exec [AddJob (7::nat), Resume 0, Wake 0] (JobQueue 1 0 :: (nat, nat) jobQueue))) = False
   \<and> aborted (snd (abortJob ''job-1'' (exec [AddJob (7::nat), Resume 0, Wake 0] (JobQueue 1 0 :: (nat, nat) jobQueue)))) 1 = False"
proof -
  have r: "''job-1'' \<in> set (running (exec [AddJob (7::nat), Resume 0, Wake 0] (JobQueue 1 0 :: (nat, nat) jobQueue)))"
    by code_simp
  have a: "aborted (exec [AddJob (7::nat), Resume 0, Wake 0] (JobQueue 1 0 :: (nat, nat) jobQueue)) 1 = False"
    by code_simp
  from r a abortJob_running [OF r] show ?thesis by simp
qed

text \<open>
  C9. In every state the queue reaches, \<open>abort\<close> on the promise of a job whose promise
  has settled changes nothing, and \<open>abortJob\<close> returns \<open>false\<close> for it.
\<close>

theorem abort_after_settled:
  "promises (exec acts (JobQueue mc iv)) h \<noteq> Pending \<Longrightarrow>
   JobPromise_abort (jobName h) (exec acts (JobQueue mc iv)) = exec acts (JobQueue mc iv)
   \<and> abortJob (jobName h) (exec acts (JobQueue mc iv)) = (False, exec acts (JobQueue mc iv))"
  by (simp add: JobPromise_abort_def abortJob_unknown [OF settled_not_queued [OF inv_run]])

theorem abort_after_settled_witness:
  "promises (exec [AddJob (7::nat), Resume 0, Wake 0, Settle 1 (Returns (4::nat))] (JobQueue 1 0)) 1
     = Fulfilled 4
   \<and> JobPromise_abort (jobName 1)
        (exec [AddJob (7::nat), Resume 0, Wake 0, Settle 1 (Returns (4::nat))] (JobQueue 1 0))
     = exec [AddJob (7::nat), Resume 0, Wake 0, Settle 1 (Returns (4::nat))] (JobQueue 1 0)"
proof -
  have p: "promises (exec [AddJob (7::nat), Resume 0, Wake 0, Settle 1 (Returns (4::nat))]
             (JobQueue 1 0)) 1 = Fulfilled 4"
    by code_simp
  then have "promises (exec [AddJob (7::nat), Resume 0, Wake 0, Settle 1 (Returns (4::nat))]
             (JobQueue 1 0)) 1 \<noteq> Pending"
    by simp
  from abort_after_settled [OF this] p show ?thesis by simp
qed

section \<open>A job that has left the queue without being started never starts\<close>

lemma never_takes: "never j s \<Longrightarrow> takes s s' \<Longrightarrow> never j s'"
  by (auto simp: never_def gone_def takes_def)

lemma never_enqueued: "never j s \<Longrightarrow> never j (enqueued d s)"
  by (auto simp: never_def gone_def)

lemma never_step: "never j s \<Longrightarrow> never j (step a s)"
proof (cases "\<exists>d. a = AddJob d")
  case True
  assume n: "never j s"
  from True obtain d where a: "a = AddJob d" by blast
  from never_takes [OF never_enqueued [OF n] takes_addJob] show ?thesis by (simp add: a)
next
  case False
  assume "never j s"
  then show ?thesis by (rule never_takes) (rule takes_step, use False in blast)
qed

lemma never_exec: "never j s \<Longrightarrow> never j (exec acts s)"
  by (induction acts arbitrary: s) (simp_all add: never_step)

text \<open>
  C2. For every job in the queue of a state the queue reaches, \<open>abortJob\<close> with its id
  returns \<open>true\<close>, takes the job (and no other) out of the queue, aborts its controller
  and rejects its promise with the error \<open>Job <id> aborted\<close>; whatever happens
  afterwards, \<open>jobStart\<close> is never emitted for that id.
\<close>

theorem abortJob_queued:
  assumes "job \<in> set (queue (exec acts (JobQueue mc iv)))"
  shows "fst (abortJob (jobId job) (exec acts (JobQueue mc iv))) = True
    \<and> queue (snd (abortJob (jobId job) (exec acts (JobQueue mc iv))))
        = remove1 job (queue (exec acts (JobQueue mc iv)))
    \<and> job \<notin> set (queue (snd (abortJob (jobId job) (exec acts (JobQueue mc iv)))))
    \<and> promises (snd (abortJob (jobId job) (exec acts (JobQueue mc iv)))) (handle job)
        = Rejected (Error (''Job '' @ jobId job @ '' aborted''))
    \<and> aborted (snd (abortJob (jobId job) (exec acts (JobQueue mc iv)))) (handle job)
    \<and> (\<forall>later. jobId job \<notin> set (started (emitted (log
          (exec later (snd (abortJob (jobId job) (exec acts (JobQueue mc iv)))))))))"
proof -
  let ?s = "exec acts (JobQueue mc iv)"
  let ?s' = "snd (abortJob (jobId job) ?s)"
  have i: "inv ?s" by (rule inv_run)
  have d: "distinct (map jobId (queue ?s))" "distinct (queue ?s)"
    using inv_distinct_ids [OF i] by (auto simp: distinct_map)
  from findIndex_distinct [OF d(1) assms] obtain k where
    k: "findIndex (\<lambda>y. jobId y = jobId job) (queue ?s) = Some k"
      "queue ?s ! k = job" "splice1 k (queue ?s) = remove1 job (queue ?s)"
    by blast
  from i assms have kn: "known ?s job" by (simp add: inv_def sound_def list_all_iff)
  then have pe: "promises ?s (handle job) = Pending" by (simp add: known_def)
  have 1: "fst (abortJob (jobId job) ?s) = True"
    and 2: "queue ?s' = remove1 job (queue ?s)"
    and 4: "promises ?s' (handle job) = Rejected (Error (''Job '' @ jobId job @ '' aborted''))"
    and 5: "aborted ?s' (handle job)"
    using k(2,3) pe by (simp_all add: abortJob_queued_eq [OF k(1)] reject_def)
  from 2 d(2) have 3: "job \<notin> set (queue ?s')" by simp
  have "never (jobId job) ?s'"
  proof -
    have "jobId job \<notin> jobId ` set (remove1 job (queue ?s))"
    proof
      assume "jobId job \<in> jobId ` set (remove1 job (queue ?s))"
      then obtain x where x: "x \<in> set (remove1 job (queue ?s))" "jobId x = jobId job"
        by auto
      then have "x \<in> set (queue ?s)" using set_remove1_subset [of job "queue ?s"] by auto
      with d(1) assms x(2) have "x = job" by (auto simp: distinct_map dest: inj_onD)
      with x(1) d(2) show False by simp
    qed
    moreover have "jobId job \<in> jobName ` {.. jobCounter ?s}"
      using kn by (simp add: known_def)
    moreover have "jobId job \<notin> set (started (emitted (log ?s)))"
      using i assms by (auto simp: inv_def sound_def list_all_iff gone_def)
    ultimately show ?thesis
      using 2 by (simp add: never_def gone_def abortJob_queued_eq [OF k(1)])
  qed
  then have "\<forall>later. jobId job \<notin> set (started (emitted (log (exec later ?s'))))"
    using never_exec [of "jobId job" ?s'] by (simp add: never_def)
  with 1 2 3 4 5 show ?thesis by blast
qed

theorem abortJob_queued_witness:
  "\<lparr>jobId = ''job-2'', jobData = (8::nat), handle = 2\<rparr>
      \<in> set (queue (exec [AddJob 7, AddJob 8] (JobQueue 1 0 :: (nat, nat) jobQueue)))
   \<and> fst (abortJob ''job-2'' (exec [AddJob 7, AddJob 8] (JobQueue 1 0 :: (nat, nat) jobQueue)))
   \<and> promises (snd (abortJob ''job-2''
        (exec [AddJob 7, AddJob 8] (JobQueue 1 0 :: (nat, nat) jobQueue)))) 2
       = Rejected (Error ''Job job-2 aborted'')
   \<and> (\<forall>later. ''job-2'' \<notin> set (started (emitted (log
          (exec later (snd (abortJob ''job-2''
             (exec [AddJob 7, AddJob 8] (JobQueue 1 0 :: (nat, nat) jobQueue)))))))))"
proof -
  have m: "\<lparr>jobId = ''job-2'', jobData = (8::nat), handle = 2\<rparr>
      \<in> set (queue (exec [AddJob 7, AddJob 8] (JobQueue 1 0 :: (nat, nat) jobQueue)))"
    by code_simp
  from abortJob_queued [OF m] m show ?thesis by simp
qed

section \<open>Listeners that return\<close>

lemma exec_append: "exec (xs @ ys) s = exec ys (exec xs s)"
  by (induction xs arbitrary: s) simp_all

lemma returns_simps [simp]:
  "returns 0 = []"
  "returns (Suc k) = Return # returns k"
  by (simp_all add: returns_def)

lemma returns_add: "returns (a + b) = returns a @ returns b"
  by (simp add: returns_def replicate_add)

text \<open>
  From the call of listener \<open>i\<close> on: each listener returns and the next is called, and
  after the last one the code goes on at the site of the \<open>emitEvent\<close>.
\<close>

lemma listeners_return:
  assumes "stack s = Frame ev i site # below" and "i < length (listeners s (kind_of ev))"
  shows "exec (returns (length (listeners s (kind_of ev)) - i)) s
         = resumeSite site None
             (s\<lparr>stack := below,
                log := log s @ map (\<lambda>l. Call l ev) (drop (Suc i) (listeners s (kind_of ev)))\<rparr>)"
  using assms
proof (induction "length (listeners s (kind_of ev)) - Suc i" arbitrary: s i)
  case 0
  then have l: "length (listeners s (kind_of ev)) - i = Suc 0" by simp
  from 0 have d: "drop (Suc i) (listeners s (kind_of ev)) = []" by simp
  from 0 have c: "callListener site ev (Suc i) (s\<lparr>stack := below\<rparr>) = (True, s\<lparr>stack := below\<rparr>)"
    by (simp add: callListener_def)
  show ?case
    unfolding l d by (simp add: listenerEnds_def "0.prems"(1) c)
next
  case (Suc k)
  let ?ls = "listeners s (kind_of ev)"
  let ?s1 = "s\<lparr>log := log s @ [Call (?ls ! Suc i) ev], stack := Frame ev (Suc i) site # below\<rparr>"
  from Suc.hyps(2) have i: "Suc i < length ?ls" by simp
  then have l: "length ?ls - i = Suc (length ?ls - Suc i)" by simp
  from i have c: "callListener site ev (Suc i) (s\<lparr>stack := below\<rparr>) = (False, ?s1)"
    by (simp add: callListener_def)
  have st: "listenerEnds None s = ?s1"
    by (simp add: listenerEnds_def Suc.prems(1) c)
  have k: "k = length (listeners ?s1 (kind_of ev)) - Suc (Suc i)"
    using Suc.hyps(2) by simp
  have "exec (returns (length (listeners ?s1 (kind_of ev)) - Suc i)) ?s1
        = resumeSite site None
            (?s1\<lparr>stack := below,
                  log := log ?s1 @ map (\<lambda>l. Call l ev) (drop (Suc (Suc i)) (listeners ?s1 (kind_of ev)))\<rparr>)"
    by (rule Suc.hyps(1) [OF k]) (use i in simp_all)
  moreover have "drop (Suc i) ?ls = ?ls ! Suc i # drop (Suc (Suc i)) ?ls"
    using i by (simp add: Cons_nth_drop_Suc)
  ultimately show ?case
    unfolding l by (simp add: st)
qed

text \<open>
  An \<open>emitEvent\<close> followed by the code \<open>k\<close> of its site: once the listeners have
  returned, the code has run on the state with the event delivered.
\<close>

lemma emitEvent_returns:
  assumes "\<And>s1. k s1 = resumeSite site None s1"
  shows "exec (returns (length (listeners s (kind_of ev))))
           (case emitEvent site ev s of (True, s1) \<Rightarrow> k s1 | (False, s1) \<Rightarrow> s1)
         = k (delivered ev s)"
proof (cases "listeners s (kind_of ev)")
  case Nil
  then show ?thesis by (simp add: emitEvent_def callListener_def delivered_def)
next
  case (Cons l ls)
  let ?s1 = "s\<lparr>log := log s @ [Emit ev, Call l ev], stack := Frame ev 0 site # stack s\<rparr>"
  have e: "emitEvent site ev s = (False, ?s1)"
    by (simp add: emitEvent_def callListener_def Cons)
  have "exec (returns (length (listeners ?s1 (kind_of ev)) - 0)) ?s1
        = resumeSite site None
            (?s1\<lparr>stack := stack s,
                  log := log ?s1 @ map (\<lambda>l. Call l ev) (drop (Suc 0) (listeners ?s1 (kind_of ev)))\<rparr>)"
    by (rule listeners_return) (simp_all add: Cons)
  then show ?thesis
    by (simp add: e Cons assms delivered_def)
qed


section \<open>dispose\<close>

lemma takes_exec: "\<forall>d. AddJob d \<notin> set later \<Longrightarrow> takes s (exec later s)"
proof (induction later arbitrary: s)
  case Nil
  show ?case by simp
next
  case (Cons a later)
  from Cons.prems have a: "\<And>d. a \<noteq> AddJob d" and l: "\<forall>d. AddJob d \<notin> set later"
    by auto
  from takes_trans [OF takes_step [OF a] Cons.IH [OF l]] show ?case by simp
qed

lemma find_distinct:
  "distinct (map f xs) \<Longrightarrow> x \<in> set xs \<Longrightarrow> find (\<lambda>y. f y = f x) xs = Some x"
  by (induction xs) (auto simp: image_iff)

lemma settle_processing:
  assumes "inv s" and "job \<in> set (processing s)"
  shows "settle (handle job) out s = finishJob job out s"
proof -
  from assms(1) have "distinct (map handle (processing s))" by (simp add: inv_def sound_def)
  from find_distinct [OF this assms(2)] show ?thesis by (simp add: settle_def)
qed

text \<open>
  The processor's promise for a job settles and the listeners called return: the rest
  of the call for the job has run, with the event delivered.
\<close>

lemma settle_returns:
  assumes "inv s" and "stack s = []" and "job \<in> set (processing s)"
  shows "exec (Settle (handle job) (Returns r) # returns (length (listeners s jobComplete))) s
         = afterComplete job r
             (delivered (JobComplete (jobId job) (jobData job) r)
                (s\<lparr>processing := remove1 job (processing s)\<rparr>))"
    and "normalize e = Inr ne \<Longrightarrow>
         exec (Settle (handle job) (Throws e) # returns (length (listeners s jobError))) s
         = afterError job e None
             (delivered (JobError (jobId job) (jobData job) ne)
                (s\<lparr>processing := remove1 job (processing s)\<rparr>))"
proof -
  let ?s0 = "s\<lparr>processing := remove1 job (processing s)\<rparr>"
  let ?ev = "JobComplete (jobId job) (jobData job) r"
  have "exec (returns (length (listeners ?s0 (kind_of ?ev))))
          (case emitEvent (AtComplete job r) ?ev ?s0 of
             (True, s1) \<Rightarrow> afterComplete job r s1 | (False, s1) \<Rightarrow> s1)
        = afterComplete job r (delivered ?ev ?s0)"
    using emitEvent_returns [where k = "afterComplete job r" and site = "AtComplete job r"
        and ev = ?ev and s = ?s0]
    by simp
  then show "exec (Settle (handle job) (Returns r) # returns (length (listeners s jobComplete))) s
         = afterComplete job r (delivered ?ev ?s0)"
    by (simp add: assms(2) settle_processing [OF assms(1,3)] finishJob_def Let_def)
next
  assume n: "normalize e = Inr ne"
  let ?s0 = "s\<lparr>processing := remove1 job (processing s)\<rparr>"
  let ?ev = "JobError (jobId job) (jobData job) ne"
  have "exec (returns (length (listeners ?s0 (kind_of ?ev))))
          (case emitEvent (AtError job e None) ?ev ?s0 of
             (True, s1) \<Rightarrow> afterError job e None s1 | (False, s1) \<Rightarrow> s1)
        = afterError job e None (delivered ?ev ?s0)"
    using emitEvent_returns [where k = "afterError job e None" and site = "AtError job e None"
        and ev = ?ev and s = ?s0]
    by simp
  then show "exec (Settle (handle job) (Throws e) # returns (length (listeners s jobError))) s
         = afterError job e None (delivered ?ev ?s0)"
    by (simp add: assms(2) settle_processing [OF assms(1,3)] finishJob_def failJob_def n Let_def)
qed

lemma inv_dispose: "inv s \<Longrightarrow> inv (dispose s)"
  by (simp add: inv_def sound_dispose)

text \<open>
  C8 as the code has it. In every state the queue reaches, \<open>dispose\<close> aborts the
  controller and rejects the promise, with the error \<open>JobQueue disposed\<close>, of every job
  in the queue, empties the queue and clears the processing flag. It leaves the running
  set, the calls being processed and the observations as they are: a job being
  processed keeps its controller's state and its pending promise, which is fulfilled
  when its processor returns and the listeners of \<open>jobComplete\<close> have returned. As long
  as nothing is added afterwards no \<open>jobStart\<close> is emitted.
\<close>

theorem dispose_effect:
  "(\<forall>job \<in> set (queue (exec acts (JobQueue mc iv))).
      aborted (dispose (exec acts (JobQueue mc iv))) (handle job)
      \<and> promises (dispose (exec acts (JobQueue mc iv))) (handle job)
          = Rejected (Error ''JobQueue disposed''))
   \<and> queue (dispose (exec acts (JobQueue mc iv))) = []
   \<and> processingInterval (dispose (exec acts (JobQueue mc iv))) = None
   \<and> running (dispose (exec acts (JobQueue mc iv))) = running (exec acts (JobQueue mc iv))
   \<and> processing (dispose (exec acts (JobQueue mc iv))) = processing (exec acts (JobQueue mc iv))
   \<and> log (dispose (exec acts (JobQueue mc iv))) = log (exec acts (JobQueue mc iv))
   \<and> (\<forall>job \<in> set (processing (exec acts (JobQueue mc iv))).
        aborted (dispose (exec acts (JobQueue mc iv))) (handle job)
          = aborted (exec acts (JobQueue mc iv)) (handle job)
        \<and> promises (dispose (exec acts (JobQueue mc iv))) (handle job) = Pending
        \<and> (stack (exec acts (JobQueue mc iv)) = [] \<longrightarrow>
             (\<forall>r. promises
                    (exec (Settle (handle job) (Returns r)
                             # returns (length (listeners (exec acts (JobQueue mc iv)) jobComplete)))
                       (dispose (exec acts (JobQueue mc iv))))
                    (handle job) = Fulfilled r)))
   \<and> (\<forall>later. (\<forall>d. AddJob d \<notin> set later) \<longrightarrow>
        started (emitted (log (exec later (dispose (exec acts (JobQueue mc iv))))))
          = started (emitted (log (exec acts (JobQueue mc iv)))))"
proof -
  let ?s = "exec acts (JobQueue mc iv)"
  have i: "inv ?s" by (rule inv_run)
  have i': "inv (dispose ?s)" by (rule inv_dispose [OF i])
  have 1: "aborted (dispose ?s) (handle job)
      \<and> promises (dispose ?s) (handle job) = Rejected (Error ''JobQueue disposed'')"
    if "job \<in> set (queue ?s)" for job
  proof -
    from i that have "known ?s job" by (simp add: inv_def sound_def list_all_iff)
    with that show ?thesis by (simp add: dispose_eq known_def reject_def)
  qed
  have 2: "aborted (dispose ?s) (handle job) = aborted ?s (handle job)
      \<and> promises (dispose ?s) (handle job) = Pending
      \<and> (stack ?s = [] \<longrightarrow>
           (\<forall>r. promises (exec (Settle (handle job) (Returns r)
                                  # returns (length (listeners ?s jobComplete))) (dispose ?s))
                   (handle job) = Fulfilled r))"
    if "job \<in> set (processing ?s)" for job
  proof -
    from i that have k: "known ?s job" by (simp add: inv_def sound_def list_all_iff)
    from i have "handle ` set (processing ?s) \<inter> handle ` set (queue ?s) = {}"
      by (auto simp: inv_def sound_def)
    with that have n: "handle job \<notin> handle ` set (queue ?s)" by blast
    from that have p: "job \<in> set (processing (dispose ?s))" by (simp add: dispose_eq)
    have pe: "promises (dispose ?s) (handle job) = Pending"
      using k n by (simp add: dispose_eq known_def)
    have "promises (exec (Settle (handle job) (Returns r)
                            # returns (length (listeners ?s jobComplete))) (dispose ?s))
            (handle job) = Fulfilled r" if st: "stack ?s = []" for r
    proof -
      have st': "stack (dispose ?s) = []" using st by (simp add: dispose_eq)
      have l: "listeners (dispose ?s) = listeners ?s" by (simp add: dispose_eq)
      from settle_returns(1) [OF i' st' p, of r] pe show ?thesis
        by (simp add: l afterComplete_def finallyJob_def delivered_def resolve_def)
    qed
    with pe n show ?thesis by (simp add: dispose_eq)
  qed
  have 3: "started (emitted (log (exec later (dispose ?s)))) = started (emitted (log ?s))"
    if "\<forall>d. AddJob d \<notin> set later" for later
  proof -
    have "queue (dispose ?s) = []" by (simp add: dispose_eq)
    with takes_exec [OF that, of "dispose ?s"] show ?thesis
      by (simp add: takes_def dispose_eq)
  qed
  from 1 2 3 show ?thesis by (simp add: dispose_eq)
qed

theorem dispose_effect_witness:
  "\<lparr>jobId = ''job-2'', jobData = (8::nat), handle = 2\<rparr>
      \<in> set (queue (exec [AddEventListener jobComplete 5, AddJob 7, AddJob 8, Resume 0, Wake 0]
                       (JobQueue 1 0 :: (nat, nat) jobQueue)))
   \<and> \<lparr>jobId = ''job-1'', jobData = (7::nat), handle = 1\<rparr>
      \<in> set (processing (exec [AddEventListener jobComplete 5, AddJob 7, AddJob 8, Resume 0, Wake 0]
                            (JobQueue 1 0 :: (nat, nat) jobQueue)))
   \<and> promises (dispose (exec [AddEventListener jobComplete 5, AddJob 7, AddJob 8, Resume 0, Wake 0]
                           (JobQueue 1 0 :: (nat, nat) jobQueue))) 2
       = Rejected (Error ''JobQueue disposed'')
   \<and> promises (dispose (exec [AddEventListener jobComplete 5, AddJob 7, AddJob 8, Resume 0, Wake 0]
                           (JobQueue 1 0 :: (nat, nat) jobQueue))) 1
       = Pending
   \<and> promises (exec [Settle 1 (Returns 4), Return]
        (dispose (exec [AddEventListener jobComplete 5, AddJob 7, AddJob 8, Resume 0, Wake 0]
                           (JobQueue 1 0 :: (nat, nat) jobQueue)))) 1
       = Fulfilled 4
   \<and> started (emitted (log (exec [Settle 1 (Returns 4), Return, Resume 0, Wake 0, Resume 0]
        (dispose (exec [AddEventListener jobComplete 5, AddJob 7, AddJob 8, Resume 0, Wake 0]
                    (JobQueue 1 0 :: (nat, nat) jobQueue))))))
       = started (emitted (log (exec [AddEventListener jobComplete 5, AddJob 7, AddJob 8, Resume 0, Wake 0]
                                  (JobQueue 1 0 :: (nat, nat) jobQueue))))"
proof -
  let ?s = "exec [AddEventListener jobComplete 5, AddJob 7, AddJob 8, Resume 0, Wake 0]
              (JobQueue 1 0 :: (nat, nat) jobQueue)"
  have q: "\<lparr>jobId = ''job-2'', jobData = (8::nat), handle = 2\<rparr> \<in> set (queue ?s)"
    by code_simp
  have p: "\<lparr>jobId = ''job-1'', jobData = (7::nat), handle = 1\<rparr> \<in> set (processing ?s)"
    by code_simp
  have st: "stack ?s = []" by code_simp
  have ls: "(returns (length (listeners ?s jobComplete)) :: (nat, nat) action list) = [Return]"
    by code_simp
  have l: "\<forall>d. AddJob d \<notin> set [Settle 1 (Returns 4), Return, Resume 0, Wake 0, Resume (0::nat)
              :: (nat, nat) action]"
    by simp
  note t = dispose_effect [of "[AddEventListener jobComplete 5, AddJob 7, AddJob 8, Resume 0, Wake 0]" 1 0]
  from t q have 1: "promises (dispose ?s) 2 = Rejected (Error ''JobQueue disposed'')"
    by fastforce
  from t p have 2: "promises (dispose ?s) 1 = Pending"
    by fastforce
  from t p st have "\<forall>r. promises (exec (Settle 1 (Returns r)
         # returns (length (listeners ?s jobComplete))) (dispose ?s)) 1 = Fulfilled r"
    by fastforce
  then have 3: "promises (exec [Settle 1 (Returns 4), Return] (dispose ?s)) 1 = Fulfilled 4"
    unfolding ls by blast
  from t l have 4: "started (emitted (log (exec [Settle 1 (Returns 4), Return, Resume 0, Wake 0, Resume 0]
        (dispose ?s)))) = started (emitted (log ?s))"
    by blast
  from q p 1 2 3 4 show ?thesis by blast
qed

text \<open>
  C8 as stated does not hold: a job added after \<open>dispose\<close> is launched at once, by a
  loop that \<open>addJob\<close> starts because \<open>dispose\<close> has cleared the flag.
\<close>

theorem dispose_effect_counterexample:
  "started (emitted (log (exec [AddJob 7, AddJob 8, Dispose] (JobQueue 1 0 :: (nat, nat) jobQueue))))
     = []
   \<and> loops (exec [AddJob 7, AddJob 8, Dispose] (JobQueue 1 0 :: (nat, nat) jobQueue))
     = [AwaitJobs []]
   \<and> started (emitted (log (exec [AddJob 7, AddJob 8, Dispose, AddJob 9]
        (JobQueue 1 0 :: (nat, nat) jobQueue))))
     = [''job-3'']
   \<and> loops (exec [AddJob 7, AddJob 8, Dispose, AddJob 9] (JobQueue 1 0 :: (nat, nat) jobQueue))
     = [AwaitJobs [], AwaitJobs [3]]
   \<and> started (emitted (log (exec [AddJob 7, Resume 0, Dispose, AddJob 9, Wake 0, Resume 0]
        (JobQueue 2 0 :: (nat, nat) jobQueue))))
     = [''job-2'']
   \<and> loops (exec [AddJob 7, Resume 0, Dispose, AddJob 9, Wake 0, Resume 0]
        (JobQueue 2 0 :: (nat, nat) jobQueue))
     = [AwaitSleep (sleep 0 None), AwaitJobs [2]]"
  by code_simp

section \<open>Failing processors\<close>




section \<open>A loop is moved by its own code only\<close>

lemma spares_refl [simp]: "spares lid s s"
  by (simp add: spares_def)



lemma active_simps [simp]:
  "active (s\<lparr>stack := Frame ev i site # st\<rparr>) = loops_of site @ active (s\<lparr>stack := st\<rparr>)"
  "active (s\<lparr>stack := stack s\<rparr>) = active s"
  "active (s\<lparr>log := l\<rparr>) = active s"
  "active (s\<lparr>loops := lp\<rparr>) = active s"
  "active (s\<lparr>queue := q\<rparr>) = active s"
  "active (s\<lparr>running := r\<rparr>) = active s"
  "active (s\<lparr>processing := p\<rparr>) = active s"
  "active (s\<lparr>promises := pr\<rparr>) = active s"
  "active (s\<lparr>failed := f\<rparr>) = active s"
  "active (s\<lparr>processingInterval := pi\<rparr>) = active s"
  "active (s\<lparr>jobCounter := c\<rparr>) = active s"
  "active (s\<lparr>aborted := a\<rparr>) = active s"
  "active (s\<lparr>listeners := ls\<rparr>) = active s"
  by (simp_all add: active_def)




























section \<open>The first continuation of the loop\<close>






end
